theory Spec2Isabelle
  imports Main "HOL-Library.Word"
begin

section \<open>The console of kernel/console.c\<close>

text \<open>
  A shallow embedding of \<^verbatim>\<open>src/kernel/console.c\<close>: the line discipline
  (\<^verbatim>\<open>consoleintr\<close>), the command history (\<^verbatim>\<open>copyCommand\<close>,
  \<^verbatim>\<open>writeCommand\<close>, \<^verbatim>\<open>moveThroughCommandHistory\<close>), the blocking
  reader (\<^verbatim>\<open>consoleread\<close>), the writer and the halt latch
  (\<^verbatim>\<open>consputc\<close>, \<^verbatim>\<open>panic\<close>).

  All the file's globals are the fields of one record, passed through every function.
  \<^verbatim>\<open>uint\<close> is \<open>32 word\<close> (subtraction and comparison wrap as in C),
  \<^verbatim>\<open>char\<close> is \<open>8 word\<close>, read as a signed value (\<open>sint\<close>) where C
  promotes it to \<^verbatim>\<open>int\<close>. The \<^verbatim>\<open>int\<close>s of the file (key codes,
  \<^verbatim>\<open>command_ptr\<close>, \<^verbatim>\<open>saved\<close>, the byte count of a read) never leave a small
  range, so they are HOL integers; the one \<^verbatim>\<open>int\<close> that takes the value of a cursor,
  \<^verbatim>\<open>buffer_ptr\<close> in \<^verbatim>\<open>copyCommand\<close>, is kept as its 32 bits.

  The locks (\<^verbatim>\<open>acquire\<close>, \<^verbatim>\<open>release\<close>, \<^verbatim>\<open>ilock\<close>, \<^verbatim>\<open>iunlock\<close>) are not
  modelled: a call runs from its \<^verbatim>\<open>acquire\<close> to its \<^verbatim>\<open>release\<close> (or to the
  \<^verbatim>\<open>sleep\<close> that gives the lock up) without another call in between, which is what
  the lock is for.
\<close>

subsection \<open>Constants and macros\<close>

type_synonym byte = "8 word"
type_synonym uint = "32 word"

abbreviation (input) INPUT_BUF :: "'a::numeral" where "INPUT_BUF \<equiv> 128"
abbreviation (input) SAVED_MAX :: "'a::numeral" where "SAVED_MAX \<equiv> 3"
abbreviation (input) BACKSPACE :: int where "BACKSPACE \<equiv> 0x100"
abbreviation (input) KEY_UP :: int where "KEY_UP \<equiv> 0xE2"
abbreviation (input) KEY_DN :: int where "KEY_DN \<equiv> 0xE3"

text \<open>\<^verbatim>\<open>C(x)\<close> is Control-x, \<^verbatim>\<open>S(x)\<close> the shifted code of an arrow key;
  \<open>0x40\<close> is \<^verbatim>\<open>'@'\<close>.\<close>

abbreviation (input) C :: "int \<Rightarrow> int" where "C x \<equiv> x - 0x40"
abbreviation (input) S :: "int \<Rightarrow> int" where "S x \<equiv> x + 0x40"

abbreviation (input) CTRL_D :: int where "CTRL_D \<equiv> C 0x44"
abbreviation (input) CTRL_H :: int where "CTRL_H \<equiv> C 0x48"
abbreviation (input) CTRL_P :: int where "CTRL_P \<equiv> C 0x50"
abbreviation (input) CTRL_U :: int where "CTRL_U \<equiv> C 0x55"
abbreviation (input) DEL :: int where "DEL \<equiv> 0x7f"
abbreviation (input) NEWLINE :: int where "NEWLINE \<equiv> 10"
abbreviation (input) CARRIAGE_RETURN :: int where "CARRIAGE_RETURN \<equiv> 13"

subsection \<open>State\<close>

text \<open>
  The globals of the file, and what its external calls leave behind:
  \<^item> \<open>uart\<close>: the arguments of \<^verbatim>\<open>uartputc\<close>, oldest first;
  \<^item> \<open>cga\<close>: the arguments of \<^verbatim>\<open>cgaputc\<close>, each with the value of
    \<^verbatim>\<open>history_color\<close> it was drawn with (the screen itself, its cursor, its
    scrolling and the \<^verbatim>\<open>panic\<close> of \<^verbatim>\<open>cgaputc\<close> on a cursor the hardware reports
    outside the screen are the display driver's and are not modelled);
  \<^item> \<open>wakeups\<close>: the number of calls of \<^verbatim>\<open>wakeup(&input.r)\<close>;
  \<^item> \<open>procdumps\<close>: the number of calls of \<^verbatim>\<open>procdump()\<close>;
  \<^item> \<open>intena\<close>: the interrupt flag of the processor that runs the call
    (\<^verbatim>\<open>cli()\<close> clears it);
  \<^item> \<open>below_input\<close>: the 127 bytes of memory that lie just below \<^verbatim>\<open>input.buf\<close>,
    nearest first (\<^verbatim>\<open>input.buf[-k]\<close> is byte \<open>k - 1\<close> of the list), as
    \<^verbatim>\<open>copyCommand\<close> finds them when its cursor is negative. Which object holds them
    is the linker's choice; no function here changes the field, and the general
    properties hold whatever it contains.
\<close>

record console =
  panicked :: int
  locking :: int
  input_buf :: "byte list"
  input_r :: uint
  input_w :: uint
  input_e :: uint
  below_input :: "byte list"
  command_stack :: "byte list list"
  command_ptr :: int
  saved :: int
  history_color :: int
  uart :: "int list"
  cga :: "(int \<times> int) list"
  wakeups :: nat
  procdumps :: nat
  intena :: bool

text \<open>
  A call either returns, or ends in one of the file's \<^verbatim>\<open>for(;;);\<close> loops. \<open>Spin s\<close>
  is a processor spinning forever, \<open>s\<close> the globals as it left them (the other
  processors go on from there).
\<close>

datatype outcome = Ret console | Spin console

fun state_of :: "outcome \<Rightarrow> console" where
  "state_of (Ret s) = s"
| "state_of (Spin s) = s"

fun returns :: "outcome \<Rightarrow> bool" where
  "returns (Ret s) = True"
| "returns (Spin s) = False"

text \<open>The statics as the C initialisers leave them, before \<^verbatim>\<open>consoleinit\<close>. The
  memory below \<^verbatim>\<open>input.buf\<close> is taken as zeroed, like the uninitialised statics
  themselves.\<close>

definition boot_console :: console where
  "boot_console =
     \<lparr> panicked = 0, locking = 0,
       input_buf = replicate INPUT_BUF 0, input_r = 0, input_w = 0, input_e = 0,
       below_input = replicate (INPUT_BUF - 1) 0,
       command_stack = replicate SAVED_MAX (replicate INPUT_BUF 0),
       command_ptr = - 1, saved = 0, history_color = 0,
       uart = [], cga = [], wakeups = 0, procdumps = 0, intena = True \<rparr>"

definition consoleinit :: "console \<Rightarrow> console" where
  "consoleinit s = s\<lparr>locking := 1\<rparr>"

definition init_console :: console where
  "init_console = consoleinit boot_console"

subsection \<open>Output\<close>

definition uartputc :: "int \<Rightarrow> console \<Rightarrow> console" where
  "uartputc c s = s\<lparr>uart := uart s @ [c]\<rparr>"

definition cgaputc :: "int \<Rightarrow> console \<Rightarrow> console" where
  "cgaputc c s = s\<lparr>cga := cga s @ [(c, history_color s)]\<rparr>"

definition cli :: "console \<Rightarrow> console" where
  "cli s = s\<lparr>intena := False\<rparr>"

definition consputc :: "int \<Rightarrow> console \<Rightarrow> outcome" where
  "consputc c s =
     (if panicked s \<noteq> 0 then Spin (cli s)
      else Ret (cgaputc c
             (if c = BACKSPACE then uartputc 8 (uartputc 32 (uartputc 8 s))
              else uartputc c s)))"

subsection \<open>Command history\<close>

text \<open>The inner loop of \<^verbatim>\<open>moveCommandsUp\<close> copies the \<open>INPUT_BUF\<close> bytes of row
  \<open>i - 1\<close> to row \<open>i\<close>: one row assignment here. \<open>i\<close> runs from
  \<open>SAVED_MAX - 1\<close> down to 1.

  In \<^verbatim>\<open>copyCommand\<close> the cursor \<^verbatim>\<open>buffer_ptr\<close> is an \<^verbatim>\<open>int\<close> that takes the
  value of the \<^verbatim>\<open>uint\<close> \<^verbatim>\<open>input.w\<close>: the same 32 bits, read as a signed number
  (\<open>sint\<close>). The test \<^verbatim>\<open>buffer_ptr != input.e\<close> converts it back to
  \<^verbatim>\<open>uint\<close>, so it compares the bits, and the increment wraps as the machine's
  addition does. The index \<^verbatim>\<open>buffer_ptr++ % INPUT_BUF\<close> is C's remainder of two
  \<^verbatim>\<open>int\<close>s, which has the sign of the cursor (\<open>c_rem\<close>): once \<^verbatim>\<open>input.w\<close>
  has reached \<open>2^31\<close> the index lies between \<open>-127\<close> and 0, and a negative index
  reads the memory below \<^verbatim>\<open>input.buf\<close> (\<open>input_buf_at\<close>).\<close>

definition c_rem :: "int \<Rightarrow> int \<Rightarrow> int" where
  "c_rem a b = (if 0 \<le> a then a mod b else - ((- a) mod b))"

definition input_buf_at :: "int \<Rightarrow> console \<Rightarrow> byte" where
  "input_buf_at i s = (if 0 \<le> i then input_buf s ! nat i else below_input s ! nat (- i - 1))"

fun moveCommandsUp_loop :: "nat \<Rightarrow> console \<Rightarrow> console" where
  "moveCommandsUp_loop i s =
     (if 1 \<le> i
      then moveCommandsUp_loop (i - 1)
             (s\<lparr>command_stack := (command_stack s)[i := command_stack s ! (i - 1)]\<rparr>)
      else s)"

definition moveCommandsUp :: "console \<Rightarrow> console" where
  "moveCommandsUp s = moveCommandsUp_loop (SAVED_MAX - 1) s"

function copyCommand_loop :: "nat \<Rightarrow> uint \<Rightarrow> console \<Rightarrow> console" where
  "copyCommand_loop ptr buffer_ptr s =
     (if buffer_ptr \<noteq> input_e s \<and> ptr < INPUT_BUF
      then (let ch = input_buf_at (c_rem (sint buffer_ptr) INPUT_BUF) s
            in copyCommand_loop (ptr + 1) (buffer_ptr + 1)
                 (s\<lparr>command_stack := (command_stack s)
                      [0 := (command_stack s ! 0)[ptr := (if ch \<noteq> 10 then ch else 0)]]\<rparr>))
      else s)"
  by pat_completeness auto
termination
  by (relation "measure (\<lambda>(ptr, buffer_ptr, s). INPUT_BUF - ptr)") auto

definition copyCommand :: "console \<Rightarrow> console" where
  "copyCommand s =
     (let s1 = moveCommandsUp s;
          s2 = s1\<lparr>command_stack := (command_stack s1)[0 := replicate INPUT_BUF 0]\<rparr>
      in copyCommand_loop 0 (input_w s2) s2)"

function clearCommandLine :: "console \<Rightarrow> outcome" where
  "clearCommandLine s =
     (if input_e s \<noteq> input_w s \<and>
         input_buf s ! (unat (input_e s - 1) mod INPUT_BUF) \<noteq> 10
      then (case consputc BACKSPACE (s\<lparr>input_e := input_e s - 1\<rparr>) of
              Spin t \<Rightarrow> Spin t
            | Ret t \<Rightarrow> clearCommandLine t)
      else Ret s)"
  by pat_completeness auto
termination
proof (relation "measure (\<lambda>s. unat (input_e s - input_w s))")
  show "wf (measure (\<lambda>s. unat (input_e s - input_w s)))"
    by simp
next
  fix s t
  assume run: "input_e s \<noteq> input_w s \<and>
      input_buf s ! (unat (input_e s - 1) mod INPUT_BUF) \<noteq> 10"
    and put: "consputc BACKSPACE (s\<lparr>input_e := input_e s - 1\<rparr>) = Ret t"
  from put have e: "input_e t = input_e s - 1" and w: "input_w t = input_w s"
    by (auto simp: consputc_def cgaputc_def uartputc_def split: if_splits)
  from run have "input_e s - input_w s \<noteq> 0"
    by simp
  then have less: "unat (input_e s - input_w s - 1) < unat (input_e s - input_w s)"
    by (simp add: unat_minus_one unat_gt_0)
  have swap: "input_e s - 1 - input_w s = input_e s - input_w s - 1"
    by simp
  from less show "(t, s) \<in> measure (\<lambda>s. unat (input_e s - input_w s))"
    unfolding in_measure e w swap .
qed

text \<open>\<^verbatim>\<open>command_stack[command_ptr]\<close>: every caller has set \<^verbatim>\<open>command_ptr\<close> to a
  row of the table (0 up to \<open>saved - 1\<close>) before the call.\<close>

function writeCommand_loop :: "nat \<Rightarrow> console \<Rightarrow> outcome" where
  "writeCommand_loop i s =
     (if i < INPUT_BUF
      then (let c = command_stack s ! nat (command_ptr s) ! i
            in if c = 10 then Ret s
               else (case consputc (sint c)
                            (s\<lparr>input_buf := (input_buf s)[unat (input_e s) mod INPUT_BUF := c],
                               input_e := input_e s + 1\<rparr>) of
                       Spin t \<Rightarrow> Spin t
                     | Ret t \<Rightarrow> writeCommand_loop (i + 1) t))
      else Ret s)"
  by pat_completeness auto
termination
  by (relation "measure (\<lambda>(i, s). INPUT_BUF - i)") auto

definition writeCommand :: "console \<Rightarrow> outcome" where
  "writeCommand s =
     (case clearCommandLine s of
        Spin t \<Rightarrow> Spin t
      | Ret t \<Rightarrow>
          (case writeCommand_loop 0 (t\<lparr>history_color := 1\<rparr>) of
             Spin u \<Rightarrow> Spin u
           | Ret u \<Rightarrow> Ret (u\<lparr>history_color := 0\<rparr>)))"

definition moveThroughCommandHistory :: "int \<Rightarrow> console \<Rightarrow> outcome" where
  "moveThroughCommandHistory upOrDown s =
     (if command_ptr s = - 1 then
        (if upOrDown = S KEY_UP then
           (if 1 \<le> saved s then writeCommand (s\<lparr>command_ptr := 0\<rparr>) else Ret s)
         else Ret s)
      else
        (if upOrDown = S KEY_UP then
           (if command_ptr s + 1 < saved s then
              (case writeCommand (s\<lparr>command_ptr := command_ptr s + 1\<rparr>) of
                 Spin t \<Rightarrow> Spin t
               | Ret t \<Rightarrow>
                   Ret (if command_ptr t = SAVED_MAX
                        then t\<lparr>command_ptr := SAVED_MAX - 1\<rparr> else t))
            else Ret s)
         else if upOrDown = S KEY_DN then
           (if 0 < command_ptr s then writeCommand (s\<lparr>command_ptr := command_ptr s - 1\<rparr>)
            else (case clearCommandLine s of
                    Spin t \<Rightarrow> Spin t
                  | Ret t \<Rightarrow> Ret (t\<lparr>command_ptr := - 1\<rparr>)))
         else Ret s))"

subsection \<open>The interrupt handler\<close>

text \<open>
  \<open>handleKey c\<close> is the body of the \<^verbatim>\<open>switch(c)\<close> in \<^verbatim>\<open>consoleintr\<close>, for one
  code \<open>c \<ge> 0\<close> taken from \<^verbatim>\<open>getc\<close>. The case \<^verbatim>\<open>C('P')\<close> only sets the local
  \<^verbatim>\<open>doprocdump\<close>, which \<open>consoleintr_loop\<close> carries. \<open>commit\<close> is the block of the
  default case that ends a line: it saves the line in the history unless
  \<^verbatim>\<open>input.e == input.w + 1\<close>, moves \<^verbatim>\<open>input.w\<close> up to \<^verbatim>\<open>input.e\<close> and wakes the
  readers.
\<close>

definition commit :: "console \<Rightarrow> console" where
  "commit s =
     (let s1 = (if input_e s \<noteq> input_w s + 1
                then (let t = copyCommand s
                      in if saved t < SAVED_MAX then t\<lparr>saved := saved t + 1\<rparr> else t)
                else s)
      in s1\<lparr>input_w := input_e s1, wakeups := wakeups s1 + 1\<rparr>)"

definition handleKey :: "int \<Rightarrow> console \<Rightarrow> outcome" where
  "handleKey c s =
     (if c = CTRL_P then Ret s
      else if c = CTRL_U then clearCommandLine s
      else if c = CTRL_H \<or> c = DEL then
        (if input_e s \<noteq> input_w s
         then (case consputc BACKSPACE (s\<lparr>input_e := input_e s - 1\<rparr>) of
                 Spin t \<Rightarrow> Spin t
               | Ret t \<Rightarrow> Ret (t\<lparr>command_ptr := - 1\<rparr>))
         else Ret s)
      else if c = S KEY_UP \<or> c = S KEY_DN then moveThroughCommandHistory c s
      else if c \<noteq> 0 \<and> input_e s - input_r s < INPUT_BUF then
        (let c' = (if c = CARRIAGE_RETURN then NEWLINE else c);
             s1 = s\<lparr>input_buf := (input_buf s)[unat (input_e s) mod INPUT_BUF := word_of_int c'],
                    input_e := input_e s + 1\<rparr>;
             s2 = s1\<lparr>command_ptr := - 1\<rparr>
         in case consputc c' s2 of
              Spin t \<Rightarrow> Spin t
            | Ret t \<Rightarrow>
                (if c' = NEWLINE \<or> c' = CTRL_D \<or> input_e t = input_r t + INPUT_BUF
                 then Ret (commit t) else Ret t))
      else Ret s)"

text \<open>The codes \<^verbatim>\<open>getc\<close> hands out in one interrupt are a list; \<^verbatim>\<open>getc\<close> answers
  a negative value when the list is used up, which ends the loop as any negative code
  does.\<close>

fun consoleintr_loop :: "int list \<Rightarrow> bool \<Rightarrow> console \<Rightarrow> bool \<times> outcome" where
  "consoleintr_loop [] doprocdump s = (doprocdump, Ret s)"
| "consoleintr_loop (c # cs) doprocdump s =
     (if c < 0 then (doprocdump, Ret s)
      else (case handleKey c s of
              Spin t \<Rightarrow> (doprocdump, Spin t)
            | Ret t \<Rightarrow> consoleintr_loop cs (if c = CTRL_P then True else doprocdump) t))"

definition procdump :: "console \<Rightarrow> console" where
  "procdump s = s\<lparr>procdumps := procdumps s + 1\<rparr>"

definition consoleintr :: "int list \<Rightarrow> console \<Rightarrow> outcome" where
  "consoleintr getc s =
     (case consoleintr_loop getc False s of
        (doprocdump, Spin t) \<Rightarrow> Spin t
      | (doprocdump, Ret t) \<Rightarrow> Ret (if doprocdump then procdump t else t))"

subsection \<open>Reading and writing\<close>

text \<open>
  \<^verbatim>\<open>consoleread\<close> sleeps while no committed byte is there. A call that goes to sleep
  is \<open>Asleep target dst n s\<close>: its locals and the globals at that moment. Whoever wakes it
  continues it with \<open>resume\<close>, from the globals as they are then and the caller's
  \<^verbatim>\<open>killed\<close> flag as it is then (a call that has returned is not continued: the
  globals stay as they are). \<open>Returned v dst s\<close> is a call that returned \<open>v\<close>
  after storing the bytes \<open>dst\<close> in the caller's buffer.

  \<open>n\<close> is positive inside the loop and \<open>target\<close> the count the call started with, so
  the comparison \<^verbatim>\<open>n < target\<close> and the result \<^verbatim>\<open>target - n\<close> are the integers'.
\<close>

datatype read_result =
  Returned int "byte list" console
| Asleep int "byte list" int console

function consoleread_loop :: "bool \<Rightarrow> int \<Rightarrow> byte list \<Rightarrow> int \<Rightarrow> console \<Rightarrow> read_result" where
  "consoleread_loop killed target dst n s =
     (if 0 < n then
        (if input_r s = input_w s then
           (if killed then Returned (- 1) dst s else Asleep target dst n s)
         else
           (let c = input_buf s ! (unat (input_r s) mod INPUT_BUF);
                s1 = s\<lparr>input_r := input_r s + 1\<rparr>
            in if sint c = CTRL_D then
                 Returned (target - n) dst
                   (if n < target then s1\<lparr>input_r := input_r s1 - 1\<rparr> else s1)
               else if sint c = NEWLINE then Returned (target - (n - 1)) (dst @ [c]) s1
               else consoleread_loop killed target (dst @ [c]) (n - 1) s1))
      else Returned (target - n) dst s)"
  by pat_completeness auto
termination
  by (relation "measure (\<lambda>(killed, target, dst, n, s). nat n)") auto

definition consoleread :: "bool \<Rightarrow> int \<Rightarrow> console \<Rightarrow> read_result" where
  "consoleread killed n s = consoleread_loop killed n [] n s"

fun resume :: "bool \<Rightarrow> console \<Rightarrow> read_result \<Rightarrow> read_result" where
  "resume killed s' (Asleep target dst n s) = consoleread_loop killed target dst n s'"
| "resume killed s' (Returned v dst s) = Returned v dst s'"

fun read_value :: "read_result \<Rightarrow> int option" where
  "read_value (Returned v dst s) = Some v"
| "read_value (Asleep target dst n s) = None"

fun read_bytes :: "read_result \<Rightarrow> byte list" where
  "read_bytes (Returned v dst s) = dst"
| "read_bytes (Asleep target dst n s) = dst"

fun read_state :: "read_result \<Rightarrow> console" where
  "read_state (Returned v dst s) = s"
| "read_state (Asleep target dst n s) = s"

text \<open>\<^verbatim>\<open>consolewrite\<close> sends \<^verbatim>\<open>buf[i] & 0xff\<close> for each of the \<open>n\<close> bytes, and
  returns \<open>n\<close>.\<close>

fun consolewrite_loop :: "byte list \<Rightarrow> console \<Rightarrow> outcome" where
  "consolewrite_loop [] s = Ret s"
| "consolewrite_loop (b # bs) s =
     (case consputc (uint b) s of
        Spin t \<Rightarrow> Spin t
      | Ret t \<Rightarrow> consolewrite_loop bs t)"

definition consolewrite :: "byte list \<Rightarrow> console \<Rightarrow> int \<times> outcome" where
  "consolewrite bs s = (int (length bs), consolewrite_loop bs s)"

subsection \<open>Diagnostics and the halt\<close>

text \<open>
  What \<^verbatim>\<open>panic\<close> and \<^verbatim>\<open>cprintf\<close> take from outside the file: the value of
  \<^verbatim>\<open>lapicid()\<close>, the ten program counters \<^verbatim>\<open>getcallerpcs\<close> stores, and the
  words that lie on the stack above the format of a \<^verbatim>\<open>cprintf\<close> called without
  arguments. A variadic argument is the word on the stack together with the string it
  points to when \<^verbatim>\<open>%s\<close> reads it as a \<^verbatim>\<open>char*\<close> (the bytes before the
  terminating NUL); \<open>args i\<close> is the \<open>i\<close>-th word above the format. A format is the
  bytes before its NUL, \<open>None\<close> the null pointer.
\<close>

type_synonym vararg = "uint \<times> byte list"

record cpu =
  lapicid :: uint
  pcs :: "nat \<Rightarrow> uint"
  stack :: "nat \<Rightarrow> vararg"

definition cstr :: "string \<Rightarrow> byte list" where
  "cstr str = map of_char str"

definition digits :: "byte list" where
  "digits = cstr ''0123456789abcdef''"

fun consputs :: "int list \<Rightarrow> console \<Rightarrow> outcome" where
  "consputs [] s = Ret s"
| "consputs (c # cs) s =
     (case consputc c s of
        Spin t \<Rightarrow> Spin t
      | Ret t \<Rightarrow> consputs cs t)"

text \<open>The \<^verbatim>\<open>do ... while((x /= base) != 0)\<close> of \<^verbatim>\<open>printint\<close>, giving
  \<^verbatim>\<open>buf[0], buf[1], ...\<close>. \<^verbatim>\<open>cprintf\<close> passes the bases 10 and 16 only; the loop
  is cut for a base below 2, where the source would not leave it.\<close>

function printint_digits :: "uint \<Rightarrow> uint \<Rightarrow> byte list" where
  "printint_digits x base =
     digits ! unat (x mod base) #
       (if x div base \<noteq> 0 \<and> 2 \<le> base then printint_digits (x div base) base else [])"
  by pat_completeness auto
termination
proof (relation "measure (\<lambda>(x, base). unat x)")
  show "wf (measure (\<lambda>(x, base). unat x))"
    by simp
next
  fix x base :: uint
  assume a: "x div base \<noteq> 0 \<and> 2 \<le> base"
  then have "2 \<le> unat base"
    by (simp add: word_le_nat_alt)
  moreover from a have "unat x div unat base \<noteq> 0"
    by (metis unat_div unat_eq_zero)
  ultimately have "unat x div unat base < unat x"
    by (intro div_less_dividend) (auto intro: Nat.gr0I)
  then show "((x div base, base), (x, base)) \<in> measure (\<lambda>(x, base). unat x)"
    by (simp add: unat_div)
qed

definition printint :: "uint \<Rightarrow> uint \<Rightarrow> bool \<Rightarrow> console \<Rightarrow> outcome" where
  "printint xx base sign s =
     (let neg = (sign \<and> sint xx < 0);
          x = (if neg then - xx else xx);
          buf = printint_digits x base @ (if neg then [0x2D] else [])
      in consputs (map sint (rev buf)) s)"

fun cprintf_loop :: "byte list \<Rightarrow> (nat \<Rightarrow> vararg) \<Rightarrow> nat \<Rightarrow> console \<Rightarrow> outcome" where
  "cprintf_loop [] args argp s = Ret s"
| "cprintf_loop (c # fmt) args argp s =
     (if c = 0 then Ret s
      else if c \<noteq> 0x25 then
        (case consputc (uint c) s of
           Spin t \<Rightarrow> Spin t
         | Ret t \<Rightarrow> cprintf_loop fmt args argp t)
      else
        (case fmt of
           [] \<Rightarrow> Ret s
         | d # fmt' \<Rightarrow>
             (if d = 0 then Ret s
              else
                (case (if d = 0x64 then printint (fst (args argp)) 10 True s
                       else if d = 0x78 \<or> d = 0x70 then printint (fst (args argp)) 16 False s
                       else if d = 0x73 then
                         consputs (map sint (if fst (args argp) = 0 then cstr ''(null)''
                                             else takeWhile (\<lambda>b. b \<noteq> 0) (snd (args argp)))) s
                       else if d = 0x25 then consputc 0x25 s
                       else consputs [0x25, uint d] s) of
                   Spin t \<Rightarrow> Spin t
                 | Ret t \<Rightarrow>
                     cprintf_loop fmt' args
                       (if d = 0x64 \<or> d = 0x78 \<or> d = 0x70 \<or> d = 0x73 then argp + 1 else argp) t))))"

text \<open>
  \<^verbatim>\<open>cprintf\<close> calls \<^verbatim>\<open>panic\<close> on a null format and \<^verbatim>\<open>panic\<close> prints with
  \<^verbatim>\<open>cprintf\<close>; \<open>panic_pcs\<close> is the loop over the ten program counters.
  \<^verbatim>\<open>panic\<close> ends in \<^verbatim>\<open>for(;;);\<close>, so nothing of \<^verbatim>\<open>cprintf\<close> runs after it.
\<close>

function panic :: "cpu \<Rightarrow> byte list option \<Rightarrow> console \<Rightarrow> outcome"
  and cprintf :: "cpu \<Rightarrow> byte list option \<Rightarrow> (nat \<Rightarrow> vararg) \<Rightarrow> console \<Rightarrow> outcome"
  and panic_pcs :: "cpu \<Rightarrow> nat \<Rightarrow> console \<Rightarrow> outcome" where
  "panic cp msg s =
     (case cprintf cp (Some (cstr ''lapicid %d: panic: '')) (\<lambda>i. if i = 0 then (lapicid cp, []) else stack cp (i - 1))
             ((cli s)\<lparr>locking := 0\<rparr>) of
        Spin t \<Rightarrow> Spin t
      | Ret s1 \<Rightarrow>
          (case cprintf cp msg (stack cp) s1 of
             Spin t \<Rightarrow> Spin t
           | Ret s2 \<Rightarrow>
               (case cprintf cp (Some [0x0A]) (stack cp) s2 of
                  Spin t \<Rightarrow> Spin t
                | Ret s3 \<Rightarrow>
                    (case panic_pcs cp 0 s3 of
                       Spin t \<Rightarrow> Spin t
                     | Ret s4 \<Rightarrow> Spin (s4\<lparr>panicked := 1\<rparr>)))))"
| "cprintf cp fmt args s =
     (case fmt of
        None \<Rightarrow> panic cp (Some (cstr ''null fmt'')) s
      | Some f \<Rightarrow> cprintf_loop f args 0 s)"
| "panic_pcs cp i s =
     (if i < 10
      then (case cprintf cp (Some (cstr '' %p'')) (\<lambda>j. if j = 0 then (pcs cp i, []) else stack cp (j - 1)) s of
              Spin t \<Rightarrow> Spin t
            | Ret t \<Rightarrow> panic_pcs cp (i + 1) t)
      else Ret s)"
  by pat_completeness auto
termination
  by (relation "measure (\<lambda>x. case x of
          Inl (cp, msg, s) \<Rightarrow> (case msg of None \<Rightarrow> 14 | Some m \<Rightarrow> 12)
        | Inr (Inl (cp, fmt, args, s)) \<Rightarrow> (case fmt of None \<Rightarrow> 13 | Some f \<Rightarrow> 0)
        | Inr (Inr (cp, i, s)) \<Rightarrow> 11 - i)") (auto split: option.splits)

section \<open>Vocabulary of the properties\<close>

subsection \<open>The ring as a stream\<close>

text \<open>\<open>stream k p b\<close> is the \<open>k\<close> bytes of the ring \<open>b\<close> from cursor \<open>p\<close> on, each
  addressed modulo the capacity: \<open>committed s\<close> is what lies between \<^verbatim>\<open>input.r\<close> and
  \<^verbatim>\<open>input.w\<close> (committed, not yet read), \<open>edit_line s\<close> what lies between
  \<^verbatim>\<open>input.w\<close> and \<^verbatim>\<open>input.e\<close> (typed, not yet committed).\<close>

fun stream :: "nat \<Rightarrow> uint \<Rightarrow> byte list \<Rightarrow> byte list" where
  "stream 0 p b = []"
| "stream (Suc k) p b = b ! (unat p mod INPUT_BUF) # stream k (p + 1) b"

definition committed :: "console \<Rightarrow> byte list" where
  "committed s = stream (unat (input_w s - input_r s)) (input_r s) (input_buf s)"

definition edit_line :: "console \<Rightarrow> byte list" where
  "edit_line s = stream (unat (input_e s - input_w s)) (input_w s) (input_buf s)"

definition advance :: "nat \<Rightarrow> console \<Rightarrow> console" where
  "advance k s = s\<lparr>input_r := input_r s + of_nat k\<rparr>"

subsection \<open>A whole call of the reader\<close>

text \<open>
  A call of \<^verbatim>\<open>consoleread\<close> that sleeps is woken later, perhaps several times, each time
  with the caller's \<^verbatim>\<open>killed\<close> flag and the globals as they are then. \<open>woken ws r\<close>
  is the call \<open>r\<close> after the wake-ups \<open>ws\<close>; a call that has returned stays as it is.
\<close>

fun woken :: "(bool \<times> console) list \<Rightarrow> read_result \<Rightarrow> read_result" where
  "woken [] r = r"
| "woken ((killed, s') # ws) (Asleep target dst n s) =
     woken ws (resume killed s' (Asleep target dst n s))"
| "woken (w # ws) (Returned v dst s) = Returned v dst s"


subsection \<open>The read of the specification\<close>

text \<open>
  The specification's \<^verbatim>\<open>read(count)\<close>, in its own words, over the committed bytes as a
  list: drain bytes one at a time, stopping when \<open>count\<close> bytes are produced, when a
  newline is consumed (it is part of the output), or when the end-of-file sentinel is
  met (it is not part of the output; it stays in the stream when the call has produced a
  byte already, and is removed otherwise). \<open>drain count produced xs\<close> gives the bytes
  produced, the number of bytes removed from the stream, and why the read stopped;
  \<open>produced\<close> says whether the call has produced a byte before. \<open>NoLine\<close> is the read
  that used up the committed bytes before any of the three and has to wait;
  \<open>Cancelled\<close> is the read that gives up there because its caller is marked for
  termination (\<open>reads\<close> below).
\<close>

datatype stop = CountReached | NewlineRead | EofMet | NoLine | Cancelled

fun drain :: "nat \<Rightarrow> bool \<Rightarrow> byte list \<Rightarrow> byte list \<times> nat \<times> stop" where
  "drain 0 produced xs = ([], 0, CountReached)"
| "drain (Suc n) produced [] = ([], 0, NoLine)"
| "drain (Suc n) produced (x # xs) =
     (if x = 4 then ([], if produced then 0 else 1, EofMet)
      else if x = 10 then ([x], 1, NewlineRead)
      else (case drain n True xs of (out, k, why) \<Rightarrow> (x # out, Suc k, why)))"

text \<open>
  The specification's read over a whole call. The call looks at the committed bytes
  \<open>xs\<close> with its caller's termination mark \<open>killed\<close>. While no committed byte is left
  and the caller is not marked it waits, and is woken with the next pair of \<open>ws\<close> (the
  mark and the committed bytes then) and what is left of its count; if the caller is marked
  when it would wait, it gives up. \<open>reads\<close> gives the bytes produced, the number of the
  wake-up at which the call stopped (0: before any), the number of bytes removed from the
  stream there, and why the call stopped; \<open>NoLine\<close> is the call that still waits after
  the last wake-up.
\<close>

fun reads ::
  "nat \<Rightarrow> bool \<Rightarrow> bool \<Rightarrow> byte list \<Rightarrow> (bool \<times> byte list) list \<Rightarrow>
     byte list \<times> nat \<times> nat \<times> stop" where
  "reads count produced killed xs [] =
     (case drain count produced xs of
        (out, k, why) \<Rightarrow> (out, 0, k, if why = NoLine \<and> killed then Cancelled else why))"
| "reads count produced killed xs ((killed', ys) # ws) =
     (case drain count produced xs of
        (out, k, why) \<Rightarrow>
          if why \<noteq> NoLine then (out, 0, k, why)
          else if killed then (out, 0, k, Cancelled)
          else (case reads (count - length out) (produced \<or> out \<noteq> []) killed' ys ws of
                  (out', j, k', why') \<Rightarrow> (out @ out', Suc j, k', why')))"

subsection \<open>Invariants\<close>

text \<open>The cursor of the history navigator is \<open>-1\<close> or the index of a saved line, and at
  most \<open>SAVED_MAX\<close> lines are saved.\<close>

definition nav_inv :: "console \<Rightarrow> bool" where
  "nav_inv s \<longleftrightarrow>
     (command_ptr s = - 1 \<or> (0 \<le> command_ptr s \<and> command_ptr s < saved s)) \<and>
     0 \<le> saved s \<and> saved s \<le> SAVED_MAX"

text \<open>The edit region holds at most \<open>INPUT_BUF\<close> bytes.\<close>

definition edit_inv :: "console \<Rightarrow> bool" where
  "edit_inv s \<longleftrightarrow> unat (input_e s - input_r s) \<le> INPUT_BUF"

text \<open>The cursors of the ring are in order: what is committed and unread is part of what
  is typed and unread, and that is at most \<open>INPUT_BUF\<close> bytes.\<close>

definition ring_inv :: "console \<Rightarrow> bool" where
  "ring_inv s \<longleftrightarrow>
     unat (input_w s - input_r s) \<le> unat (input_e s - input_r s) \<and>
     unat (input_e s - input_r s) \<le> INPUT_BUF"

text \<open>
  A key code is plain when its low byte is the newline byte only if it is the newline
  itself; the 8-bit codes and the two history codes are plain. In a tidy console the ring
  has its \<open>INPUT_BUF\<close> bytes and, as long as the output path is not halted, no newline
  byte lies in the edit line (a newline is committed at once).
\<close>

definition plain :: "int \<Rightarrow> bool" where
  "plain c \<longleftrightarrow> (if (word_of_int c :: byte) = 10 then c = NEWLINE else True)"

definition tidy :: "console \<Rightarrow> bool" where
  "tidy s \<longleftrightarrow>
     length (input_buf s) = INPUT_BUF \<and>
     (if panicked s = 0 then 10 \<notin> set (edit_line s) else True)"

subsection \<open>What a call leaves alone\<close>

text \<open>
  \<open>keeps s t\<close>: from \<open>s\<close> to \<open>t\<close> the history cursor, the number of saved lines and
  the halt flag are unchanged, and nothing was sent to the UART or the screen if the flag
  was set. \<open>frozen s t\<close> is the latch alone: a clear flag stays clear or becomes 1; a set
  flag keeps its value, and nothing is sent to the UART or the screen. \<open>halts\<close> is what
  \<^verbatim>\<open>panic\<close> guarantees (the latch, and the history untouched), \<open>steps\<close> what every entry
  point guarantees (the latch, and the invariant of the history navigator).
\<close>

definition keeps :: "console \<Rightarrow> console \<Rightarrow> bool" where
  "keeps s t \<longleftrightarrow>
     command_ptr t = command_ptr s \<and> saved t = saved s \<and> panicked t = panicked s \<and>
     (if panicked s = 0 then True else uart t = uart s \<and> cga t = cga s)"

definition frozen :: "console \<Rightarrow> console \<Rightarrow> bool" where
  "frozen s t \<longleftrightarrow>
     (if panicked s = 0 then panicked t = 0 \<or> panicked t = 1
      else panicked t = panicked s \<and> uart t = uart s \<and> cga t = cga s)"

definition halts :: "console \<Rightarrow> console \<Rightarrow> bool" where
  "halts s t \<longleftrightarrow> command_ptr t = command_ptr s \<and> saved t = saved s \<and> frozen s t"

definition steps :: "console \<Rightarrow> console \<Rightarrow> bool" where
  "steps s t \<longleftrightarrow> frozen s t \<and> (if nav_inv s then nav_inv t else True)"

subsection \<open>Entry points\<close>

text \<open>The calls other code makes into the file, and the globals each leaves behind
  (at its return, at its sleep or where it spins).\<close>

datatype call =
  Intr "int list"
| Read bool int
| Wake bool read_result
| Write "byte list"
| Printf cpu "byte list option" "nat \<Rightarrow> vararg"
| Panic cpu "byte list option"
| Init

fun exec :: "call \<Rightarrow> console \<Rightarrow> console" where
  "exec (Intr getc) s = state_of (consoleintr getc s)"
| "exec (Read killed n) s = read_state (consoleread killed n s)"
| "exec (Wake killed sleeper) s = read_state (resume killed s sleeper)"
| "exec (Write bs) s = state_of (snd (consolewrite bs s))"
| "exec (Printf cp fmt args) s = state_of (cprintf cp fmt args s)"
| "exec (Panic cp msg) s = state_of (panic cp msg s)"
| "exec Init s = consoleinit s"

fun execs :: "call list \<Rightarrow> console \<Rightarrow> console" where
  "execs [] s = s"
| "execs (c # cs) s = execs cs (exec c s)"

text \<open>A call whose key codes are plain.\<close>

fun plain_call :: "call \<Rightarrow> bool" where
  "plain_call (Intr getc) = list_all plain getc"
| "plain_call (Read killed n) = True"
| "plain_call (Wake killed sleeper) = True"
| "plain_call (Write bs) = True"
| "plain_call (Printf cp fmt args) = True"
| "plain_call (Panic cp msg) = True"
| "plain_call Init = True"

subsection \<open>Sessions at the keyboard\<close>

text \<open>The console after \<^verbatim>\<open>a\<close> and Enter, and after that line is recalled with the
  history-up key.\<close>

definition typed_a :: console where
  "typed_a = state_of (consoleintr [0x61, NEWLINE] init_console)"

definition recalled_a :: console where
  "recalled_a = state_of (consoleintr [S KEY_UP] typed_a)"

text \<open>The console after \<^verbatim>\<open>a\<close> and Ctrl-D.\<close>

definition typed_a_eof :: console where
  "typed_a_eof = state_of (consoleintr [0x61, CTRL_D] init_console)"

text \<open>The console after \<^verbatim>\<open>h\<close>, \<^verbatim>\<open>i\<close> and Ctrl-D.\<close>

definition typed_hi_eof :: console where
  "typed_hi_eof = state_of (consoleintr [0x68, 0x69, CTRL_D] init_console)"

text \<open>The console after 128 times \<^verbatim>\<open>x\<close>: the last one fills the buffer and commits.\<close>

definition typed_full :: console where
  "typed_full = state_of (consoleintr (replicate INPUT_BUF 0x78) init_console)"

text \<open>The console after the 128 bytes of \<open>typed_full\<close> have been read and Ctrl-D has
  been typed then.\<close>

definition drained_then_eof :: console where
  "drained_then_eof = state_of (consoleintr [CTRL_D] (advance 128 typed_full))"

text \<open>The console after two lines, \<^verbatim>\<open>a\<close> and \<^verbatim>\<open>b\<close>, and history-up twice.\<close>

definition browsing_two :: console where
  "browsing_two =
     state_of (consoleintr [0x61, NEWLINE, 0x62, NEWLINE, S KEY_UP, S KEY_UP] init_console)"

text \<open>A processor, and the console after it has called \<^verbatim>\<open>panic("boom")\<close>.\<close>

definition cpu0 :: cpu where
  "cpu0 = \<lparr>lapicid = 0, pcs = (\<lambda>i. 0), stack = (\<lambda>i. (0, []))\<rparr>"

definition halted :: console where
  "halted = state_of (panic cpu0 (Some (cstr ''boom'')) init_console)"

section \<open>Properties\<close>

text \<open>The loops are unfolded by hand, one iteration at a time.\<close>

declare moveCommandsUp_loop.simps [simp del]
declare copyCommand_loop.simps [simp del]
declare clearCommandLine.simps [simp del]
declare writeCommand_loop.simps [simp del]
declare consoleread_loop.simps [simp del]
declare printint_digits.simps [simp del]
declare panic.simps [simp del]
declare cprintf.simps [simp del]
declare panic_pcs.simps [simp del]

subsection \<open>Evaluated sessions\<close>

lemma typed_full_eq:
  "typed_full =
     init_console\<lparr>input_buf := replicate INPUT_BUF 0x78, input_w := INPUT_BUF, input_e := INPUT_BUF,
       command_stack := [replicate INPUT_BUF 0x78, replicate INPUT_BUF 0, replicate INPUT_BUF 0],
       saved := 1, uart := replicate INPUT_BUF 0x78, cga := replicate INPUT_BUF (0x78, 0),
       wakeups := 1\<rparr>"
  by code_simp

lemma typed_full_cursors:
  "input_r typed_full = 0" "input_w typed_full = INPUT_BUF" "input_e typed_full = INPUT_BUF"
  by (simp_all add: typed_full_eq init_console_def consoleinit_def boot_console_def)

lemma drained_then_eof_eq:
  "drained_then_eof =
     init_console\<lparr>input_buf := 4 # replicate 127 0x78, input_r := 128, input_w := 129,
       input_e := 129,
       command_stack := [replicate INPUT_BUF 0x78, replicate INPUT_BUF 0, replicate INPUT_BUF 0],
       saved := 1, uart := replicate INPUT_BUF 0x78 @ [4],
       cga := replicate INPUT_BUF (0x78, 0) @ [(4, 0)], wakeups := 2\<rparr>"
  unfolding drained_then_eof_def typed_full_eq by code_simp

lemma typed_a_eq:
  "typed_a =
     init_console\<lparr>input_buf := 0x61 # 0x0A # replicate 126 0, input_w := 2, input_e := 2,
       command_stack := [0x61 # replicate 127 0, replicate INPUT_BUF 0, replicate INPUT_BUF 0],
       saved := 1, uart := [0x61, 0x0A], cga := [(0x61, 0), (0x0A, 0)], wakeups := 1\<rparr>"
  by code_simp

lemma recalled_a_run:
  "consoleintr [S KEY_UP] typed_a =
     Ret (typed_a\<lparr>input_buf := 0 # 0 # 0x61 # replicate 125 0, input_e := 130, command_ptr := 0,
       uart := [0x61, 0x0A] @ 0x61 # replicate 127 0,
       cga := [(0x61, 0), (0x0A, 0)] @ (0x61, 1) # replicate 127 (0, 1)\<rparr>)"
  unfolding typed_a_eq by code_simp

lemma recalled_a_eq:
  "recalled_a =
     typed_a\<lparr>input_buf := 0 # 0 # 0x61 # replicate 125 0, input_e := 130, command_ptr := 0,
       uart := [0x61, 0x0A] @ 0x61 # replicate 127 0,
       cga := [(0x61, 0), (0x0A, 0)] @ (0x61, 1) # replicate 127 (0, 1)\<rparr>"
  unfolding recalled_a_def recalled_a_run state_of.simps by (rule refl)

lemma typed_a_eof_eq:
  "typed_a_eof =
     init_console\<lparr>input_buf := 0x61 # 4 # replicate 126 0, input_w := 2, input_e := 2,
       command_stack := [0x61 # 4 # replicate 126 0, replicate INPUT_BUF 0, replicate INPUT_BUF 0],
       saved := 1, uart := [0x61, 4], cga := [(0x61, 0), (4, 0)], wakeups := 1\<rparr>"
  by code_simp

lemma recalled_then_kill:
  "consoleintr [CTRL_U] recalled_a =
     Ret (typed_a\<lparr>input_buf := 0 # 0 # 0x61 # replicate 125 0, command_ptr := 0,
       uart := [0x61, 0x0A] @ 0x61 # replicate 127 0 @ concat (replicate 128 [8, 32, 8]),
       cga := [(0x61, 0), (0x0A, 0)] @ (0x61, 1) # replicate 127 (0, 1) @
              replicate 128 (BACKSPACE, 0)\<rparr>)"
  unfolding recalled_a_def recalled_a_run typed_a_eq by code_simp

lemma recalled_then_x: "consoleintr [0x78] recalled_a = Ret recalled_a"
  unfolding recalled_a_def recalled_a_run typed_a_eq by code_simp

lemma typed_hi_eof_eq:
  "typed_hi_eof =
     init_console\<lparr>input_buf := 0x68 # 0x69 # 4 # replicate 125 0, input_w := 3, input_e := 3,
       command_stack := [0x68 # 0x69 # 4 # replicate 125 0, replicate INPUT_BUF 0, replicate INPUT_BUF 0],
       saved := 1, uart := [0x68, 0x69, 4], cga := [(0x68, 0), (0x69, 0), (4, 0)], wakeups := 1\<rparr>"
  by code_simp

lemma typed_a_nav:
  "nav_inv typed_a" "command_ptr typed_a = - 1" "saved typed_a = 1"
  unfolding typed_a_eq by code_simp+

lemma recalled_a_nav:
  "nav_inv recalled_a" "command_ptr recalled_a = 0" "saved recalled_a = 1"
  "panicked recalled_a = 0" "10 \<notin> set (edit_line recalled_a)"
  unfolding recalled_a_eq typed_a_eq by code_simp+

lemma browsing_two_eq:
  "browsing_two =
     init_console\<lparr>input_buf := 0 # 0 # 0 # 0 # 0x61 # replicate 123 0, input_w := 4, input_e := 132,
       command_stack := [0x62 # replicate 127 0, 0x61 # replicate 127 0, replicate INPUT_BUF 0],
       command_ptr := 1, saved := 2,
       uart := [0x61, 0x0A, 0x62, 0x0A] @ 0x62 # replicate 127 0 @
               concat (replicate 128 [8, 32, 8]) @ 0x61 # replicate 127 0,
       cga := [(0x61, 0), (0x0A, 0), (0x62, 0), (0x0A, 0)] @ (0x62, 1) # replicate 127 (0, 1) @
              replicate 128 (BACKSPACE, 0) @ (0x61, 1) # replicate 127 (0, 1),
       wakeups := 2\<rparr>"
  by code_simp
lemma browsing_two_nav:
  "nav_inv browsing_two" "command_ptr browsing_two = 1" "saved browsing_two = 2"
  unfolding browsing_two_eq by code_simp+

subsection \<open>Bytes that are dropped\<close>

lemma handleKey_full_drop:
  assumes "\<not> input_e s - input_r s < INPUT_BUF"
    and "c \<noteq> CTRL_P" "c \<noteq> CTRL_U" "c \<noteq> CTRL_H" "c \<noteq> DEL" "c \<noteq> S KEY_UP" "c \<noteq> S KEY_DN"
  shows "handleKey c s = Ret s"
  using assms by (simp add: handleKey_def)

text \<open>
  C7. A byte of the default case (none of the control and arrow codes) that arrives when
  \<^verbatim>\<open>input.e - input.r\<close> equals the capacity 128 changes nothing: \<open>handleKey\<close> returns
  the very state it was given, so the byte is not stored, \<^verbatim>\<open>input.e\<close> does not move,
  nothing is sent to the UART or the screen, and the history and its cursor are as before.
\<close>

theorem full_buffer_drops_byte:
  "input_e s - input_r s = INPUT_BUF \<Longrightarrow>
   c \<notin> {CTRL_P, CTRL_U, CTRL_H, DEL, S KEY_UP, S KEY_DN} \<Longrightarrow>
   handleKey c s = Ret s"
  by (rule handleKey_full_drop) simp_all

theorem full_buffer_drops_byte_witness:
  "input_e typed_full - input_r typed_full = INPUT_BUF \<and>
   (0x78::int) \<notin> {CTRL_P, CTRL_U, CTRL_H, DEL, S KEY_UP, S KEY_DN} \<and>
   handleKey 0x78 typed_full = Ret typed_full"
proof -
  have full: "input_e typed_full - input_r typed_full = INPUT_BUF"
    by (simp add: typed_full_cursors)
  have key: "(0x78::int) \<notin> {CTRL_P, CTRL_U, CTRL_H, DEL, S KEY_UP, S KEY_DN}"
    by simp
  from full key full_buffer_drops_byte [OF full key] show ?thesis
    by blast
qed

text \<open>
  C10. The key code 0 is dropped in every state, full or not: \<open>handleKey\<close> returns the
  state it was given, so nothing is stored, \<^verbatim>\<open>input.e\<close> does not move, nothing is
  echoed and \<^verbatim>\<open>command_ptr\<close> is not reset.
\<close>

theorem nul_key_dropped: "handleKey 0 s = Ret s"
  by (simp add: handleKey_def)

subsection \<open>History recall and the edit region\<close>

text \<open>
  C1. The invariant \<^verbatim>\<open>input.e - input.r \<le> 128\<close> is not kept by a history recall.
  After \<^verbatim>\<open>a\<close> and Enter (nothing read yet) the invariant holds and the committed
  bytes are \<^verbatim>\<open>a\<close>, newline. The history-up key then makes \<^verbatim>\<open>writeCommand\<close> store
  all 128 bytes of the saved row without the test \<^verbatim>\<open>input.e - input.r < INPUT_BUF\<close>
  that the default case makes: \<^verbatim>\<open>input.e - input.r\<close> is 130, and the two committed,
  unread bytes have been overwritten with NUL.
\<close>

theorem recall_overflows_edit_region:
  "edit_inv typed_a \<and> committed typed_a = [0x61, 0x0A] \<and>
   consoleintr [S KEY_UP] typed_a = Ret recalled_a \<and>
   unat (input_e recalled_a - input_r recalled_a) = 130 \<and> \<not> edit_inv recalled_a \<and>
   committed recalled_a = [0, 0]"
proof -
  have "edit_inv typed_a" "committed typed_a = [0x61, 0x0A]"
    unfolding typed_a_eq by code_simp+
  moreover have "consoleintr [S KEY_UP] typed_a = Ret recalled_a"
    by (simp only: recalled_a_run recalled_a_eq)
  moreover have "unat (input_e recalled_a - input_r recalled_a) = 130" "\<not> edit_inv recalled_a"
    "committed recalled_a = [0, 0]"
    unfolding recalled_a_eq typed_a_eq by code_simp+
  ultimately show ?thesis
    by blast
qed

text \<open>
  C3. A recall does not put exactly the stored line into the edit region. The line saved
  for \<^verbatim>\<open>a\<close> and Enter is the row \<^verbatim>\<open>a\<close> followed by 127 NUL bytes of padding
  (\<^verbatim>\<open>copyCommand\<close> stores NUL for the newline). \<^verbatim>\<open>writeCommand\<close> stops at a newline
  only, which no row holds, so the recall appends and echoes the whole row: the edit
  line is 128 bytes long, \<^verbatim>\<open>a\<close> and 127 NUL bytes, and 128 bytes go to the UART.
  \<^verbatim>\<open>input.w\<close> is not changed. The recalled line cannot be entered as it stands: the
  buffer is full, and Enter is dropped like any other byte.
\<close>

theorem recall_appends_whole_row:
  "command_stack typed_a ! 0 = 0x61 # replicate 127 0 \<and> edit_line typed_a = [] \<and>
   input_w recalled_a = input_w typed_a \<and>
   edit_line recalled_a = 0x61 # replicate 127 0 \<and>
   drop (length (uart typed_a)) (uart recalled_a) = 0x61 # replicate 127 0 \<and>
   consoleintr [NEWLINE] recalled_a = Ret recalled_a"
proof -
  have "command_stack typed_a ! 0 = 0x61 # replicate 127 0" "edit_line typed_a = []"
    unfolding typed_a_eq by code_simp+
  moreover have "input_w recalled_a = input_w typed_a"
    "edit_line recalled_a = 0x61 # replicate 127 0"
    "drop (length (uart typed_a)) (uart recalled_a) = 0x61 # replicate 127 0"
    unfolding recalled_a_eq typed_a_eq by code_simp+
  moreover have "\<not> input_e recalled_a - input_r recalled_a < INPUT_BUF"
    unfolding recalled_a_eq typed_a_eq by code_simp
  then have "handleKey NEWLINE recalled_a = Ret recalled_a"
    by (rule handleKey_full_drop) simp_all
  then have "consoleintr [NEWLINE] recalled_a = Ret recalled_a"
    by (simp add: consoleintr_def)
  ultimately show ?thesis
    by blast
qed

text \<open>
  C4. A commit by the end-of-file sentinel saves the sentinel with the line. After
  \<^verbatim>\<open>a\<close> and Ctrl-D the line is committed (\<^verbatim>\<open>input.w = input.e\<close>) and one line is
  saved, but row 0 of the history starts \<^verbatim>\<open>a\<close>, \<open>0x04\<close>, NUL: \<^verbatim>\<open>copyCommand\<close>
  replaces a newline by NUL and copies every other byte, Ctrl-D included.
\<close>

theorem eof_commit_saves_sentinel:
  "take 3 (command_stack typed_a_eof ! 0) = [0x61, 4, 0] \<and> saved typed_a_eof = 1 \<and>
   input_w typed_a_eof = input_e typed_a_eof"
  unfolding typed_a_eof_eq by code_simp

text \<open>
  C6. Kill-line does not reset the history cursor, and a byte typed after a recall is
  dropped. With the line \<^verbatim>\<open>a\<close> recalled (\<^verbatim>\<open>command_ptr = 0\<close>), Ctrl-U returns and
  erases the whole edit line but leaves \<^verbatim>\<open>command_ptr\<close> at 0, where backspace would
  have set it to \<open>-1\<close>. And \<^verbatim>\<open>x\<close> typed after the recall changes nothing at all (the
  recall has filled the buffer), so \<^verbatim>\<open>command_ptr\<close> stays 0 there too.
\<close>

theorem kill_line_keeps_history_cursor:
  "command_ptr recalled_a = 0 \<and>
   returns (consoleintr [CTRL_U] recalled_a) \<and>
   edit_line (state_of (consoleintr [CTRL_U] recalled_a)) = [] \<and>
   command_ptr (state_of (consoleintr [CTRL_U] recalled_a)) = 0 \<and>
   consoleintr [0x78] recalled_a = Ret recalled_a"
proof -
  have "command_ptr recalled_a = 0"
    by (simp add: recalled_a_eq)
  moreover have "returns (consoleintr [CTRL_U] recalled_a)"
    "command_ptr (state_of (consoleintr [CTRL_U] recalled_a)) = 0"
    unfolding recalled_then_kill by simp_all
  moreover have "edit_line (state_of (consoleintr [CTRL_U] recalled_a)) = []"
    unfolding recalled_then_kill state_of.simps typed_a_eq by code_simp
  ultimately show ?thesis
    using recalled_then_x by blast
qed

subsection \<open>Reading\<close>


lemma sint_byte_eq_4: "sint (c::byte) = 4 \<longleftrightarrow> c = 4"
proof
  assume "sint c = 4"
  then have "word_of_int (sint c) = (word_of_int 4 :: byte)" by simp
  then show "c = 4" by simp
qed simp

lemma sint_byte_eq_10: "sint (c::byte) = 10 \<longleftrightarrow> c = 10"
proof
  assume "sint c = 10"
  then have "word_of_int (sint c) = (word_of_int 10 :: byte)" by simp
  then show "c = 10" by simp
qed simp

lemma committed_empty: "input_r s = input_w s \<Longrightarrow> committed s = []"
  by (simp add: committed_def)

lemma committed_step:
  assumes "input_r s \<noteq> input_w s"
  shows "committed s =
    input_buf s ! (unat (input_r s) mod INPUT_BUF) # committed (s\<lparr>input_r := input_r s + 1\<rparr>)"
proof -
  from assms have nz: "input_w s - input_r s \<noteq> 0"
    by simp
  have a: "input_w s - (input_r s + 1) = input_w s - input_r s - 1"
    by simp
  have "unat (input_w s - input_r s - 1) = unat (input_w s - input_r s) - 1"
    using nz by (rule unat_minus_one)
  moreover have "0 < unat (input_w s - input_r s)"
    using nz by (simp add: unat_gt_0)
  ultimately have k: "unat (input_w s - input_r s) = Suc (unat (input_w s - (input_r s + 1)))"
    unfolding a by simp
  show ?thesis
    unfolding committed_def by (subst k) simp
qed

lemma advance_0: "advance 0 s = s"
  by (simp add: advance_def)

lemma advance_Suc: "advance (Suc k) s = advance k (s\<lparr>input_r := input_r s + 1\<rparr>)"
  by (simp add: advance_def add.assoc add.commute)

lemma consoleread_loop_drain:
  assumes "drain (nat n) (n < target) (committed s) = (out, k, why)" and "n \<le> target"
  shows "consoleread_loop killed target dst n s =
    (if why = NoLine
     then (if killed then Returned (- 1) (dst @ out) (advance k s)
           else Asleep target (dst @ out) (n - int (length out)) (advance k s))
     else Returned (target - n + int (length out)) (dst @ out) (advance k s))"
  using assms
proof (induction killed target dst n s arbitrary: out k why rule: consoleread_loop.induct)
  case (1 killed target dst n s)
  note unf = consoleread_loop.simps [of killed target dst n s]
  show ?case
  proof (cases "0 < n")
    case False
    with "1.prems" show ?thesis
      by (simp add: unf advance_0)
  next
    case pos: True
    then obtain m where m: "nat n = Suc m" "m = nat (n - 1)"
      by (cases "nat n") auto
    show ?thesis
    proof (cases "input_r s = input_w s")
      case True
      with "1.prems" pos m show ?thesis
        by (simp add: unf committed_empty advance_0)
    next
      case avail: False
      define c where "c = input_buf s ! (unat (input_r s) mod INPUT_BUF)"
      define s1 where "s1 = s\<lparr>input_r := input_r s + 1\<rparr>"
      have com: "committed s = c # committed s1"
        using avail by (simp add: committed_step c_def s1_def)
      show ?thesis
      proof (cases "c = 4")
        case True
        with "1.prems" pos m avail com show ?thesis
          by (auto simp: unf sint_byte_eq_4 c_def s1_def advance_0 advance_def Let_def)
      next
        case not_eof: False
        show ?thesis
        proof (cases "c = 10")
          case True
          with "1.prems" pos m avail com not_eof show ?thesis
            by (auto simp: unf sint_byte_eq_4 sint_byte_eq_10 c_def s1_def advance_def Let_def)
        next
          case not_nl: False
          obtain out' k' why' where d: "drain m True (committed s1) = (out', k', why')"
            by (cases "drain m True (committed s1)") auto
          with "1.prems" m com not_eof not_nl
          have res: "out = c # out'" "k = Suc k'" "why = why'"
            by auto
          from "1.prems" pos have lt: "n - 1 < target" "n - 1 \<le> target"
            by auto
          have "consoleread_loop killed target (dst @ [c]) (n - 1) s1 =
            (if why' = NoLine
             then (if killed then Returned (- 1) ((dst @ [c]) @ out') (advance k' s1)
                   else Asleep target ((dst @ [c]) @ out') (n - 1 - int (length out')) (advance k' s1))
             else Returned (target - (n - 1) + int (length out')) ((dst @ [c]) @ out') (advance k' s1))"
            using pos avail not_eof not_nl d lt m
            by (intro "1.IH") (auto simp: c_def s1_def sint_byte_eq_4 sint_byte_eq_10)
          moreover have "consoleread_loop killed target dst n s =
             consoleread_loop killed target (dst @ [c]) (n - 1) s1"
            using pos avail not_eof not_nl
            by (simp add: unf c_def s1_def sint_byte_eq_4 sint_byte_eq_10 Let_def)
          ultimately show ?thesis
            by (simp add: res advance_Suc s1_def)
        qed
      qed
    qed
  qed
qed


lemma length_stream: "length (stream k p b) = k"
  by (induction k arbitrary: p) auto

lemma length_committed: "length (committed s) = unat (input_w s - input_r s)"
  by (simp add: committed_def length_stream)

lemma committed_advance:
  "k \<le> length (committed s) \<Longrightarrow> committed (advance k s) = drop k (committed s)"
proof (induction k arbitrary: s)
  case 0
  then show ?case by (simp add: advance_0)
next
  case (Suc k)
  then have "input_r s \<noteq> input_w s"
    by (auto simp: length_committed)
  then have step: "committed s =
      input_buf s ! (unat (input_r s) mod INPUT_BUF) # committed (s\<lparr>input_r := input_r s + 1\<rparr>)"
    by (rule committed_step)
  with Suc.prems have "k \<le> length (committed (s\<lparr>input_r := input_r s + 1\<rparr>))"
    by simp
  then have "committed (advance k (s\<lparr>input_r := input_r s + 1\<rparr>)) =
      drop k (committed (s\<lparr>input_r := input_r s + 1\<rparr>))"
    by (rule Suc.IH)
  then show ?case
    by (subst step) (simp add: advance_Suc)
qed

lemma drain_eof_left:
  "drain n p xs = (out, k, EofMet) \<Longrightarrow> p \<or> out \<noteq> [] \<Longrightarrow> k < length xs \<and> xs ! k = 4"
proof (induction n p xs arbitrary: out k rule: drain.induct)
  case (3 n produced x xs)
  show ?case
  proof (cases "x = 4 \<or> x = 10")
    case True
    with 3 show ?thesis
      by (auto split: if_splits)
  next
    case False
    obtain out' k' why' where d: "drain n True xs = (out', k', why')"
      by (cases "drain n True xs") auto
    with "3.prems" False have "out = x # out'" "k = Suc k'" "why' = EofMet"
      by auto
    with "3.IH" [of out' k'] False d show ?thesis
      by simp
  qed
qed simp_all

lemma drain_length: "drain n p xs = (out, k, why) \<Longrightarrow> length out \<le> n"
proof (induction n p xs arbitrary: out k rule: drain.induct)
  case (3 n produced x xs)
  then show ?case
    by (auto split: if_splits prod.splits)
qed auto


lemma drain_bytes:
  "drain n p xs = (out, k, why) \<Longrightarrow> 4 \<notin> set out \<and> 10 \<notin> set (butlast out)"
proof (induction n p xs arbitrary: out k rule: drain.induct)
  case (3 n produced x xs)
  then show ?case
    by (auto split: if_splits prod.splits)
qed auto

lemma drain_stop:
  "drain n p xs = (out, k, why) \<Longrightarrow>
     (case why of
        CountReached \<Rightarrow> length out = n
      | NewlineRead \<Rightarrow> out \<noteq> [] \<and> last out = 10
      | EofMet \<Rightarrow> length out < length xs \<and> xs ! length out = 4
      | NoLine \<Rightarrow> length out = length xs
      | Cancelled \<Rightarrow> False)"
proof (induction n p xs arbitrary: out k rule: drain.induct)
  case (3 n produced x xs)
  then show ?case
    by (auto split: if_splits prod.splits stop.splits)
qed auto


lemma drain_NoLine_short: "drain n p xs = (out, k, NoLine) \<Longrightarrow> length out < n"
proof (induction n p xs arbitrary: out k rule: drain.induct)
  case (3 n produced x xs)
  then show ?case
    by (auto split: if_splits prod.splits)
qed auto

lemma drain_not_Cancelled: "drain n p xs = (out, k, why) \<Longrightarrow> why \<noteq> Cancelled"
  using drain_stop [of n p xs out k why] by auto

lemma woken_Returned: "woken ws (Returned v dst s) = Returned v dst s"
  by (cases ws) auto


lemma woken_reads:
  assumes "reads (nat n) (n < target) killed (committed s) (map (apsnd committed) ws) =
      (out, j, k, why)"
    and "n \<le> target"
  shows "woken ws (consoleread_loop killed target dst n s) =
    (if why = NoLine
     then Asleep target (dst @ out) (n - int (length out)) (advance k ((s # map snd ws) ! j))
     else if why = Cancelled
     then Returned (- 1) (dst @ out) (advance k ((s # map snd ws) ! j))
     else Returned (target - n + int (length out)) (dst @ out)
            (advance k ((s # map snd ws) ! j)))"
  using assms
proof (induction ws arbitrary: killed dst n s out j k why)
  case Nil
  obtain out0 k0 why0 where d: "drain (nat n) (n < target) (committed s) = (out0, k0, why0)"
    by (cases "drain (nat n) (n < target) (committed s)") auto
  from d have nc: "why0 \<noteq> Cancelled"
    by (rule drain_not_Cancelled)
  from Nil.prems(1) d have res: "out = out0" "j = 0" "k = k0"
    "why = (if why0 = NoLine \<and> killed then Cancelled else why0)"
    by auto
  from consoleread_loop_drain [OF d Nil.prems(2), of killed dst] nc show ?case
    by (auto simp: res)
next
  case (Cons w ws)
  obtain f t where w: "w = (f, t)"
    by (cases w)
  obtain out0 k0 why0 where d: "drain (nat n) (n < target) (committed s) = (out0, k0, why0)"
    by (cases "drain (nat n) (n < target) (committed s)") auto
  from d have nc: "why0 \<noteq> Cancelled"
    by (rule drain_not_Cancelled)
  note loop = consoleread_loop_drain [OF d Cons.prems(2), of killed dst]
  show ?case
  proof (cases "why0 = NoLine \<and> \<not> killed")
    case False
    with Cons.prems(1) d have res: "out = out0" "j = 0" "k = k0"
      "why = (if why0 = NoLine then Cancelled else why0)"
      by (auto simp: w split: if_splits)
    from loop False nc show ?thesis
      by (auto simp: res woken_Returned)
  next
    case True
    define n' where "n' = n - int (length out0)"
    obtain out' j' k' why' where
      r: "reads (nat n - length out0) (n < target \<or> out0 \<noteq> []) f (committed t)
            (map (apsnd committed) ws) = (out', j', k', why')"
      by (cases "reads (nat n - length out0) (n < target \<or> out0 \<noteq> []) f (committed t)
            (map (apsnd committed) ws)") auto
    with Cons.prems(1) d True have res: "out = out0 @ out'" "j = Suc j'" "k = k'" "why = why'"
      by (auto simp: w)
    from d True have short: "length out0 < nat n"
      by (simp add: drain_NoLine_short)
    then have a: "nat n - length out0 = nat n'" and b: "(n < target \<or> out0 \<noteq> []) = (n' < target)"
      and c: "n' \<le> target"
      using Cons.prems(2) by (cases out0; auto simp: n'_def)+
    from r have r': "reads (nat n') (n' < target) f (committed t) (map (apsnd committed) ws) =
        (out', j', k', why')"
      by (simp add: a b)
    from loop True have "consoleread_loop killed target dst n s =
        Asleep target (dst @ out0) n' (advance k0 s)"
      by (simp add: n'_def)
    then have "woken (w # ws) (consoleread_loop killed target dst n s) =
        woken ws (consoleread_loop f target (dst @ out0) n' t)"
      by (simp add: w)
    also note Cons.IH [OF r' c, of "dst @ out0"]
    finally show ?thesis
      by (simp add: res n'_def w)
  qed
qed

lemma reads_index: "reads n p killed xs ws = (out, j, k, why) \<Longrightarrow> j \<le> length ws"
proof (induction ws arbitrary: n p killed xs out j k why)
  case Nil
  then show ?case
    by (auto split: prod.splits)
next
  case (Cons w ws)
  obtain f ys where w: "w = (f, ys)"
    by (cases w)
  from Cons.prems Cons.IH show ?case
    by (auto simp: w split: prod.splits if_splits)
qed

lemma reads_eof_left:
  "reads n p killed xs ws = (out, j, k, EofMet) \<Longrightarrow> p \<or> out \<noteq> [] \<Longrightarrow>
     k < length ((xs # map snd ws) ! j) \<and> (xs # map snd ws) ! j ! k = 4"
proof (induction ws arbitrary: n p killed xs out j k)
  case Nil
  then show ?case
    using drain_eof_left [of n p xs out k]
    by (auto split: prod.splits if_splits)
next
  case (Cons w ws)
  obtain f ys where w: "w = (f, ys)"
    by (cases w)
  obtain out0 k0 why0 where d: "drain n p xs = (out0, k0, why0)"
    by (cases "drain n p xs") auto
  show ?case
  proof (cases "why0 = NoLine \<and> \<not> killed")
    case False
    with Cons.prems d have "out = out0" "j = 0" "k = k0" "why0 = EofMet"
      by (auto simp: w split: if_splits)
    with d Cons.prems(2) show ?thesis
      using drain_eof_left [of n p xs out k] by simp
  next
    case True
    obtain out' j' k' why' where
      r: "reads (n - length out0) (p \<or> out0 \<noteq> []) f ys ws = (out', j', k', why')"
      by (cases "reads (n - length out0) (p \<or> out0 \<noteq> []) f ys ws") auto
    with Cons.prems(1) d True have res: "out = out0 @ out'" "j = Suc j'" "k = k'" "why' = EofMet"
      by (auto simp: w)
    from Cons.prems(2) res have "(p \<or> out0 \<noteq> []) \<or> out' \<noteq> []"
      by auto
    with Cons.IH [of "n - length out0" "p \<or> out0 \<noteq> []" f ys out' j' k'] r res
    show ?thesis
      by (simp add: w)
  qed
qed

lemma reads_piece:
  assumes "reads n p killed (committed s) (map (apsnd committed) ws) = (out, j, k, why)"
  shows "(committed s # map snd (map (apsnd committed) ws)) ! j = committed ((s # map snd ws) ! j)"
proof -
  from assms have "j \<le> length (map (apsnd committed) ws)"
    by (rule reads_index)
  then have j: "j < length (s # map snd ws)"
    by simp
  have "committed s # map snd (map (apsnd committed) ws) = map committed (s # map snd ws)"
    by (simp add: comp_def)
  with j show ?thesis
    by (simp only: nth_map)
qed

lemma reads_length: "reads n p killed xs ws = (out, j, k, why) \<Longrightarrow> length out \<le> n"
proof (induction ws arbitrary: n p killed xs out j k why)
  case Nil
  then show ?case
    using drain_length [of n p xs] by (auto split: prod.splits)
next
  case (Cons w ws)
  obtain f ys where w: "w = (f, ys)"
    by (cases w)
  obtain out0 k0 why0 where d: "drain n p xs = (out0, k0, why0)"
    by (cases "drain n p xs") auto
  then have l0: "length out0 \<le> n"
    by (rule drain_length)
  show ?case
  proof (cases "why0 = NoLine \<and> \<not> killed")
    case False
    with Cons.prems d l0 show ?thesis
      by (auto simp: w split: if_splits)
  next
    case True
    obtain out' j' k' why' where
      r: "reads (n - length out0) (p \<or> out0 \<noteq> []) f ys ws = (out', j', k', why')"
      by (cases "reads (n - length out0) (p \<or> out0 \<noteq> []) f ys ws") auto
    with Cons.prems d True have "out = out0 @ out'"
      by (auto simp: w)
    moreover from r have "length out' \<le> n - length out0"
      by (rule Cons.IH)
    ultimately show ?thesis
      using l0 by simp
  qed
qed

lemma reads_stop:
  "reads n p killed xs ws = (out, j, k, why) \<Longrightarrow>
     (why = CountReached \<longrightarrow> length out = n) \<and>
     (why = NewlineRead \<longrightarrow> out \<noteq> [] \<and> last out = 10)"
proof (induction ws arbitrary: n p killed xs out j k why)
  case Nil
  then show ?case
    using drain_stop [of n p xs] by (auto split: prod.splits if_splits)
next
  case (Cons w ws)
  obtain f ys where w: "w = (f, ys)"
    by (cases w)
  obtain out0 k0 why0 where d: "drain n p xs = (out0, k0, why0)"
    by (cases "drain n p xs") auto
  then have l0: "length out0 \<le> n"
    by (rule drain_length)
  show ?case
  proof (cases "why0 = NoLine \<and> \<not> killed")
    case False
    with Cons.prems d show ?thesis
      using drain_stop [of n p xs out0 k0 why0] by (auto simp: w split: if_splits)
  next
    case True
    obtain out' j' k' why' where
      r: "reads (n - length out0) (p \<or> out0 \<noteq> []) f ys ws = (out', j', k', why')"
      by (cases "reads (n - length out0) (p \<or> out0 \<noteq> []) f ys ws") auto
    with Cons.prems d True have res: "out = out0 @ out'" "why = why'"
      by (auto simp: w)
    from Cons.IH [OF r] l0 show ?thesis
      by (auto simp: res)
  qed
qed

text \<open>
  C2. \<^verbatim>\<open>consoleread\<close> does what the specification's read does, over a whole call: from
  the call to its return, through every wait. Take the committed bytes the call finds at
  its start and at each wake-up, with its caller's termination mark then; the
  specification's read tells the bytes produced, where it stopped and why. The call has
  stored exactly those bytes and has moved \<^verbatim>\<open>input.r\<close> over the bytes the read
  removes from the stream it stopped in. If the read stopped for one of its three reasons
  (\<open>count\<close> bytes produced, a newline consumed and delivered, the end-of-file sentinel
  met and not delivered), the call has returned the number of bytes produced. If the read
  still waits after the last wake-up, the call is asleep, with the bytes produced so far
  and its count reduced by their number. If the read gave up a wait because the caller is
  marked for termination, the call has returned \<open>-1\<close>. When the sentinel ends a call
  that has produced a byte, it is not removed: any later read of a positive count returns 0
  bytes at once and removes it then.
\<close>

theorem consoleread_drains:
  assumes "reads (nat n) False killed (committed s) (map (apsnd committed) ws) = (out, j, k, why)"
  shows "woken ws (consoleread killed n s) =
      (if why = NoLine
       then Asleep n out (n - int (length out)) (advance k ((s # map snd ws) ! j))
       else if why = Cancelled
       then Returned (- 1) out (advance k ((s # map snd ws) ! j))
       else Returned (int (length out)) out (advance k ((s # map snd ws) ! j))) \<and>
    (why = EofMet \<and> out \<noteq> [] \<and> 0 < n' \<longrightarrow>
       consoleread killed' n' (advance k ((s # map snd ws) ! j)) =
         Returned 0 [] (advance 1 (advance k ((s # map snd ws) ! j))))"
proof -
  define st where "st = (s # map snd ws) ! j"
  have first: "woken ws (consoleread killed n s) =
      (if why = NoLine then Asleep n out (n - int (length out)) (advance k st)
       else if why = Cancelled then Returned (- 1) out (advance k st)
       else Returned (int (length out)) out (advance k st))"
    using woken_reads [of n n killed s ws out j k why "[]"] assms
    by (simp add: consoleread_def st_def)
  have "consoleread killed' n' (advance k st) = Returned 0 [] (advance 1 (advance k st))"
    if eof: "why = EofMet" and some: "out \<noteq> []" and pos: "0 < n'"
  proof -
    have "k < length (committed st) \<and> committed st ! k = 4"
      using reads_eof_left [of "nat n" False killed "committed s" "map (apsnd committed) ws" out j k]
        assms eof some reads_piece [OF assms]
      by (simp add: st_def)
    then have at: "k < length (committed st)" "committed st ! k = 4"
      by simp_all
    from at(1) have "drop k (committed st) = committed st ! k # drop (Suc k) (committed st)"
      by (rule Cons_nth_drop_Suc [symmetric])
    with at have "committed (advance k st) = 4 # drop (Suc k) (committed st)"
      by (simp add: committed_advance)
    moreover from pos obtain m where "nat n' = Suc m"
      by (cases "nat n'") auto
    ultimately have "drain (nat n') (n' < n') (committed (advance k st)) = ([], 1, EofMet)"
      by simp
    from consoleread_loop_drain [OF this, of killed' "[]"] show ?thesis
      by (simp add: consoleread_def)
  qed
  with first show ?thesis
    unfolding st_def by blast
qed

theorem consoleread_drains_witness:
  "reads (nat 10) False False (committed typed_hi_eof) (map (apsnd committed) []) =
     ([0x68, 0x69], 0, 2, EofMet) \<and>
   woken [] (consoleread False 10 typed_hi_eof) =
     Returned 2 [0x68, 0x69] (advance 2 typed_hi_eof) \<and>
   consoleread False 10 (advance 2 typed_hi_eof) =
     Returned 0 [] (advance 1 (advance 2 typed_hi_eof)) \<and>
   input_r typed_hi_eof = 0 \<and> input_r (advance 2 typed_hi_eof) = 2 \<and>
   input_r (advance 1 (advance 2 typed_hi_eof)) = 3 \<and>
   reads (nat 200) False False (committed typed_full)
       (map (apsnd committed) [(False, drained_then_eof)]) =
     (replicate 128 0x78, 1, 0, EofMet) \<and>
   woken [(False, drained_then_eof)] (consoleread False 200 typed_full) =
     Returned 128 (replicate 128 0x78) drained_then_eof \<and>
   consoleread False 10 drained_then_eof = Returned 0 [] (advance 1 drained_then_eof) \<and>
   input_r drained_then_eof = 128 \<and> input_r (advance 1 drained_then_eof) = 129"
proof -
  have d: "reads (nat 10) False False (committed typed_hi_eof) (map (apsnd committed) []) =
      ([0x68, 0x69], 0, 2, EofMet)"
    unfolding typed_hi_eof_eq by code_simp
  have r: "input_r typed_hi_eof = 0"
    unfolding typed_hi_eof_eq by code_simp
  have e: "reads (nat 200) False False (committed typed_full)
        (map (apsnd committed) [(False, drained_then_eof)]) =
      (replicate 128 0x78, 1, 0, EofMet)"
    unfolding drained_then_eof_eq typed_full_eq by code_simp
  have q: "input_r drained_then_eof = 128"
    unfolding drained_then_eof_eq by code_simp
  from consoleread_drains [OF d, of 10 False]
  have first: "woken [] (consoleread False 10 typed_hi_eof) =
      Returned 2 [0x68, 0x69] (advance 2 typed_hi_eof)"
    "consoleread False 10 (advance 2 typed_hi_eof) =
      Returned 0 [] (advance 1 (advance 2 typed_hi_eof))"
    by simp_all
  from consoleread_drains [OF e, of 10 False]
  have second: "woken [(False, drained_then_eof)] (consoleread False 200 typed_full) =
      Returned 128 (replicate 128 0x78) drained_then_eof"
    "consoleread False 10 drained_then_eof = Returned 0 [] (advance 1 drained_then_eof)"
    by (simp_all add: advance_0)
  from r q have "input_r (advance 2 typed_hi_eof) = 2"
    "input_r (advance 1 (advance 2 typed_hi_eof)) = 3" "input_r (advance 1 drained_then_eof) = 129"
    by (simp_all add: advance_def)
  with d e r q first second show ?thesis
    by blast
qed

subsection \<open>A reader that is killed\<close>









subsection \<open>Properties every output function keeps\<close>

lemma bind_pres:
  assumes "P (state_of x)" and "\<And>t. x = Ret t \<Longrightarrow> P t \<Longrightarrow> P (state_of (k t))"
  shows "P (state_of (case x of Ret t \<Rightarrow> k t | Spin t \<Rightarrow> Spin t))"
  using assms by (cases x) auto

lemma if_pres:
  assumes "b \<Longrightarrow> P (state_of x)" and "\<not> b \<Longrightarrow> P (state_of y)"
  shows "P (state_of (if b then x else y))"
  using assms by simp

lemma list_case_pres:
  assumes "fmt = [] \<Longrightarrow> P (state_of a)" and "\<And>d f. fmt = d # f \<Longrightarrow> P (state_of (b d f))"
  shows "P (state_of (case fmt of [] \<Rightarrow> a | d # f \<Rightarrow> b d f))"
  using assms by (cases fmt) auto

lemma Ret_pres: "P s \<Longrightarrow> P (state_of (Ret s))"
  by simp

lemma Spin_pres: "P s \<Longrightarrow> P (state_of (Spin s))"
  by simp

lemma consputs_pres:
  assumes putc: "\<And>c s. P s \<Longrightarrow> P (state_of (consputc c s))" and "P s"
  shows "P (state_of (consputs cs s))"
  using \<open>P s\<close>
proof (induction cs arbitrary: s)
  case Nil
  then show ?case by simp
next
  case (Cons c cs)
  show ?case
    unfolding consputs.simps
    by (intro bind_pres [where P = P] putc Cons.prems Cons.IH)
qed

lemma printint_pres:
  assumes "\<And>c s. P s \<Longrightarrow> P (state_of (consputc c s))" and "P s"
  shows "P (state_of (printint xx base sign s))"
  unfolding printint_def Let_def using assms by (rule consputs_pres)

lemma consolewrite_loop_pres:
  assumes putc: "\<And>c s. P s \<Longrightarrow> P (state_of (consputc c s))" and "P s"
  shows "P (state_of (consolewrite_loop bs s))"
  using \<open>P s\<close>
proof (induction bs arbitrary: s)
  case Nil
  then show ?case by simp
next
  case (Cons b bs)
  show ?case
    unfolding consolewrite_loop.simps
    by (intro bind_pres [where P = P] putc Cons.prems Cons.IH)
qed

lemma cprintf_loop_pres:
  assumes putc: "\<And>c s. P s \<Longrightarrow> P (state_of (consputc c s))" and "P s"
  shows "P (state_of (cprintf_loop fmt args argp s))"
  using \<open>P s\<close>
proof (induction fmt args argp s rule: cprintf_loop.induct)
  case (1 args argp s)
  then show ?case by simp
next
  case (2 c fmt args argp s)
  note puts = consputs_pres [of P, OF putc] printint_pres [of P, OF putc]
  show ?case
    apply (subst cprintf_loop.simps(2))
    apply (intro if_pres [where P = P] bind_pres [where P = P] list_case_pres [where P = P]
        putc puts Ret_pres [where P = P] "2.prems")
         apply (assumption | (rule "2.IH" (1); assumption) | (rule "2.IH" (2); assumption))+
    done
qed

lemma cprintf_Some: "cprintf cp (Some f) args s = cprintf_loop f args 0 s"
  by (simp add: cprintf.simps)

lemma cprintf_None: "cprintf cp None args s = panic cp (Some (cstr ''null fmt'')) s"
  by (simp add: cprintf.simps)

lemma cprintf_Some_pres:
  assumes "\<And>c s. P s \<Longrightarrow> P (state_of (consputc c s))" and "P s"
  shows "P (state_of (cprintf cp (Some f) args s))"
  using assms by (simp add: cprintf_Some cprintf_loop_pres)

lemma panic_pcs_pres:
  assumes putc: "\<And>c s. P s \<Longrightarrow> P (state_of (consputc c s))" and "P s"
  shows "P (state_of (panic_pcs cp i s))"
  using \<open>P s\<close>
proof (induction "10 - i" arbitrary: i s)
  case 0
  then show ?case
    by (simp add: panic_pcs.simps [of cp i s])
next
  case (Suc n)
  note pr = cprintf_Some_pres [of P, OF putc]
  show ?case
    apply (subst panic_pcs.simps)
    apply (intro if_pres [where P = P] bind_pres [where P = P] pr Ret_pres [where P = P] Suc.prems)
     apply assumption
    apply (rule Suc.hyps(1))
    using Suc.hyps(2) apply simp_all
    done
qed

lemma panic_Some_pres:
  assumes putc: "\<And>c s. P s \<Longrightarrow> P (state_of (consputc c s))"
    and enter: "\<And>s. P s \<Longrightarrow> P ((cli s)\<lparr>locking := 0\<rparr>)"
    and leave: "\<And>s. P s \<Longrightarrow> P (s\<lparr>panicked := 1\<rparr>)"
    and "P s"
  shows "P (state_of (panic cp (Some m) s))"
proof -
  note pr = cprintf_Some_pres [of P, OF putc] panic_pcs_pres [of P, OF putc]
  show ?thesis
    apply (subst panic.simps)
    apply (intro bind_pres [where P = P] pr Spin_pres [where P = P] enter leave \<open>P s\<close>)
       apply assumption+
    done
qed

lemma cprintf_pres:
  assumes putc: "\<And>c s. P s \<Longrightarrow> P (state_of (consputc c s))"
    and enter: "\<And>s. P s \<Longrightarrow> P ((cli s)\<lparr>locking := 0\<rparr>)"
    and leave: "\<And>s. P s \<Longrightarrow> P (s\<lparr>panicked := 1\<rparr>)"
    and "P s"
  shows "P (state_of (cprintf cp fmt args s))"
proof (cases fmt)
  case None
  then show ?thesis
    using panic_Some_pres [of P, OF putc enter leave \<open>P s\<close>] by (simp add: cprintf_None)
next
  case (Some f)
  then show ?thesis
    using cprintf_Some_pres [of P, OF putc \<open>P s\<close>] by simp
qed

lemma panic_pres:
  assumes putc: "\<And>c s. P s \<Longrightarrow> P (state_of (consputc c s))"
    and enter: "\<And>s. P s \<Longrightarrow> P ((cli s)\<lparr>locking := 0\<rparr>)"
    and leave: "\<And>s. P s \<Longrightarrow> P (s\<lparr>panicked := 1\<rparr>)"
    and "P s"
  shows "P (state_of (panic cp msg s))"
proof -
  note pr = cprintf_pres [of P, OF putc enter leave] panic_pcs_pres [of P, OF putc]
  show ?thesis
    apply (subst panic.simps)
    apply (intro bind_pres [where P = P] pr Spin_pres [where P = P] enter leave \<open>P s\<close>)
       apply assumption+
    done
qed

subsection \<open>What the output functions keep\<close>

lemma keeps_refl: "keeps s s"
  by (simp add: keeps_def)

lemma keeps_trans: "keeps s t \<Longrightarrow> keeps t u \<Longrightarrow> keeps s u"
  by (auto simp: keeps_def split: if_splits)

lemma consputc_panicked: "panicked s \<noteq> 0 \<Longrightarrow> consputc c s = Spin (cli s)"
  by (simp add: consputc_def)

lemma consputc_calm: "panicked s = 0 \<Longrightarrow> \<exists>t. consputc c s = Ret t \<and> panicked t = 0"
  by (simp add: consputc_def cgaputc_def uartputc_def)

lemma consputc_keeps: "keeps s0 s \<Longrightarrow> keeps s0 (state_of (consputc c s))"
  by (auto simp: consputc_def keeps_def cgaputc_def uartputc_def cli_def)

lemma clearCommandLine_keeps: "keeps s0 s \<Longrightarrow> keeps s0 (state_of (clearCommandLine s))"
proof (induction s rule: clearCommandLine.induct)
  case (1 s)
  have upd: "keeps s0 (s\<lparr>input_e := input_e s - 1\<rparr>)"
    using "1.prems" by (simp add: keeps_def)
  show ?case
    apply (subst clearCommandLine.simps)
    apply (intro if_pres [where P = "keeps s0"] bind_pres [where P = "keeps s0"] consputc_keeps upd
        Ret_pres [where P = "keeps s0"] "1.prems")
    apply (rule "1.IH")
    apply simp_all
    done
qed

lemma writeCommand_loop_keeps: "keeps s0 s \<Longrightarrow> keeps s0 (state_of (writeCommand_loop i s))"
proof (induction i s rule: writeCommand_loop.induct)
  case (1 i s)
  have upd: "keeps s0 (s\<lparr>input_buf := b, input_e := e\<rparr>)" for b e
    using "1.prems" by (simp add: keeps_def)
  show ?case
    apply (subst writeCommand_loop.simps)
    apply (unfold Let_def)
    apply (intro if_pres [where P = "keeps s0"] bind_pres [where P = "keeps s0"] consputc_keeps upd
        Ret_pres [where P = "keeps s0"] "1.prems")
    apply (rule "1.IH")
    apply simp_all
    done
qed

lemma color_keeps: "keeps s0 t \<Longrightarrow> keeps s0 (t\<lparr>history_color := h\<rparr>)"
  by (simp add: keeps_def)

lemma writeCommand_keeps: "keeps s0 s \<Longrightarrow> keeps s0 (state_of (writeCommand s))"
  unfolding writeCommand_def
  by (intro bind_pres [where P = "keeps s0"] clearCommandLine_keeps writeCommand_loop_keeps
      Ret_pres [where P = "keeps s0"] color_keeps)

lemma consolewrite_loop_keeps: "keeps s0 s \<Longrightarrow> keeps s0 (state_of (consolewrite_loop bs s))"
  by (rule consolewrite_loop_pres [where P = "keeps s0"]) (rule consputc_keeps)

lemma cprintf_loop_keeps: "keeps s0 s \<Longrightarrow> keeps s0 (state_of (cprintf_loop fmt args argp s))"
  by (rule cprintf_loop_pres [where P = "keeps s0"]) (rule consputc_keeps)

lemma frozen_refl: "frozen s s"
  by (simp add: frozen_def)

lemma frozen_trans: "frozen s t \<Longrightarrow> frozen t u \<Longrightarrow> frozen s u"
  by (auto simp: frozen_def split: if_splits)

lemma keeps_frozen: "keeps s t \<Longrightarrow> frozen s t"
  by (auto simp: keeps_def frozen_def split: if_splits)

subsection \<open>cprintf and panic\<close>

lemma cprintf_Some_keeps: "keeps s0 s \<Longrightarrow> keeps s0 (state_of (cprintf cp (Some f) args s))"
  by (simp add: cprintf_Some cprintf_loop_keeps)

lemma panic_pcs_keeps: "keeps s0 s \<Longrightarrow> keeps s0 (state_of (panic_pcs cp i s))"
  by (rule panic_pcs_pres [where P = "keeps s0"]) (rule consputc_keeps)

lemma panic_spins: "\<not> returns (panic cp msg s)"
  by (simp add: panic.simps [of cp msg s] split: outcome.splits)

lemma panic_panicked:
  assumes "panicked s \<noteq> 0"
  shows "panic cp msg s = Spin ((cli s)\<lparr>locking := 0\<rparr>)"
proof -
  have "cprintf_loop (cstr ''lapicid %d: panic: '') args 0 ((cli s)\<lparr>locking := 0\<rparr>) =
      Spin ((cli s)\<lparr>locking := 0\<rparr>)" for args
    using assms by (simp add: cstr_def consputc_def cli_def)
  then show ?thesis
    by (simp add: panic.simps [of cp msg s] cprintf_Some)
qed

lemma set_panicked_keeps_nav:
  "keeps s0 t \<Longrightarrow> command_ptr (t\<lparr>panicked := 1\<rparr>) = command_ptr s0 \<and> saved (t\<lparr>panicked := 1\<rparr>) = saved s0"
  by (simp add: keeps_def)

lemma keeps_halts: "keeps s t \<Longrightarrow> halts s t"
  by (simp add: halts_def keeps_frozen) (simp add: keeps_def)

lemma halts_set: "keeps s t \<Longrightarrow> panicked s = 0 \<Longrightarrow> halts s (t\<lparr>panicked := 1\<rparr>)"
  by (simp add: halts_def keeps_def frozen_def)

lemma halts_trans: "halts s t \<Longrightarrow> halts t u \<Longrightarrow> halts s u"
  by (auto simp: halts_def intro: frozen_trans)

lemma panic_skeleton:
  assumes msg: "\<And>s1. keeps s s1 \<Longrightarrow> halts s (state_of (cprintf cp msg (stack cp) s1))"
    and msg_ret: "\<And>s1 s2. keeps s s1 \<Longrightarrow> cprintf cp msg (stack cp) s1 = Ret s2 \<Longrightarrow> keeps s s2"
  shows "halts s (state_of (panic cp msg s))"
proof (cases "panicked s = 0")
  case False
  then show ?thesis
    by (simp add: panic_panicked halts_def frozen_def cli_def)
next
  case calm: True
  define s0 where "s0 = (cli s)\<lparr>locking := 0\<rparr>"
  have k0: "keeps s s0"
    by (simp add: s0_def keeps_def cli_def)
  define x1 where "x1 = cprintf cp (Some (cstr ''lapicid %d: panic: ''))
      (\<lambda>i. if i = 0 then (lapicid cp, []) else stack cp (i - 1)) s0"
  have k1: "keeps s (state_of x1)"
    unfolding x1_def using k0 by (rule cprintf_Some_keeps)
  note unf = panic.simps [of cp msg s] x1_def [symmetric] s0_def [symmetric]
  show ?thesis
  proof (cases x1)
    case (Spin t)
    with k1 show ?thesis
      by (simp add: unf keeps_halts)
  next
    case r1: (Ret s1)
    define x2 where "x2 = cprintf cp msg (stack cp) s1"
    have k2: "halts s (state_of x2)"
      unfolding x2_def using k1 r1 by (intro msg) simp
    show ?thesis
    proof (cases x2)
      case (Spin t)
      with k2 r1 show ?thesis
        by (simp add: unf x2_def [symmetric])
    next
      case r2: (Ret s2)
      have ks2: "keeps s s2"
        using k1 r1 r2 msg_ret [of s1 s2] by (simp add: x2_def)
      define x3 where "x3 = cprintf cp (Some [0x0A]) (stack cp) s2"
      have k3: "keeps s (state_of x3)"
        unfolding x3_def using ks2 by (rule cprintf_Some_keeps)
      show ?thesis
      proof (cases x3)
        case (Spin t)
        with k3 r1 r2 show ?thesis
          by (simp add: unf x2_def [symmetric] x3_def [symmetric] keeps_halts)
      next
        case r3: (Ret s3)
        define x4 where "x4 = panic_pcs cp 0 s3"
        have k4: "keeps s (state_of x4)"
          unfolding x4_def using k3 r3 by (intro panic_pcs_keeps) simp
        show ?thesis
        proof (cases x4)
          case (Spin t)
          with k4 r1 r2 r3 show ?thesis
            by (simp add: unf x2_def [symmetric] x3_def [symmetric] x4_def [symmetric] keeps_halts)
        next
          case r4: (Ret s4)
          with k4 have "halts s (s4\<lparr>panicked := 1\<rparr>)"
            using calm by (simp add: halts_set)
          with r1 r2 r3 r4 show ?thesis
            by (simp add: unf x2_def [symmetric] x3_def [symmetric] x4_def [symmetric])
        qed
      qed
    qed
  qed
qed

lemma panic_Some_halts: "halts s (state_of (panic cp (Some m) s))"
proof (rule panic_skeleton)
  fix s1 s2
  assume k: "keeps s s1"
  then have ks: "keeps s (state_of (cprintf cp (Some m) (stack cp) s1))"
    by (rule cprintf_Some_keeps)
  then show "halts s (state_of (cprintf cp (Some m) (stack cp) s1))"
    by (rule keeps_halts)
  assume "cprintf cp (Some m) (stack cp) s1 = Ret s2"
  with ks show "keeps s s2"
    by simp
qed

lemma panic_halts: "halts s (state_of (panic cp msg s))"
proof (cases msg)
  case (Some m)
  then show ?thesis
    by (simp add: panic_Some_halts)
next
  case None
  show ?thesis
    unfolding None
  proof (rule panic_skeleton)
    fix s1 s2
    assume k: "keeps s s1"
    have "halts s1 (state_of (panic cp (Some (cstr ''null fmt'')) s1))"
      by (rule panic_Some_halts)
    with k show "halts s (state_of (cprintf cp None (stack cp) s1))"
      by (auto simp: cprintf_None intro: halts_trans keeps_halts)
    assume "cprintf cp None (stack cp) s1 = Ret s2"
    then show "keeps s s2"
      using panic_spins [of cp "Some (cstr ''null fmt'')" s1] by (simp add: cprintf_None)
  qed
qed

lemma cprintf_halts: "halts s (state_of (cprintf cp fmt args s))"
proof (cases fmt)
  case None
  then show ?thesis
    by (simp add: cprintf_None panic_halts)
next
  case (Some f)
  then show ?thesis
    by (simp add: cprintf_Some_keeps keeps_refl keeps_halts)
qed

subsection \<open>When the flag is clear\<close>

lemma consputs_calm: "panicked s = 0 \<Longrightarrow> \<exists>t. consputs cs s = Ret t \<and> panicked t = 0"
proof (induction cs arbitrary: s)
  case Nil
  then show ?case by simp
next
  case (Cons c cs)
  from consputc_calm [OF Cons.prems, of c] obtain t where "consputc c s = Ret t" "panicked t = 0"
    by blast
  with Cons.IH [of t] show ?case
    by simp
qed

lemma printint_calm:
  "panicked s = 0 \<Longrightarrow> \<exists>t. printint xx base sign s = Ret t \<and> panicked t = 0"
  unfolding printint_def Let_def by (rule consputs_calm)

lemma cprintf_loop_calm:
  "panicked s = 0 \<Longrightarrow> \<exists>t. cprintf_loop fmt args argp s = Ret t \<and> panicked t = 0"
proof (induction fmt args argp s rule: cprintf_loop.induct)
  case (1 args argp s)
  then show ?case by simp
next
  case (2 c fmt args argp s)
  show ?case
  proof (cases "c = 0")
    case True
    with "2.prems" show ?thesis by simp
  next
    case c0: False
    show ?thesis
    proof (cases "c = 0x25")
      case False
      from consputc_calm [OF "2.prems", of "uint c"] obtain t
        where t: "consputc (uint c) s = Ret t" "panicked t = 0"
        by blast
      with "2.IH" (1) [of t] c0 False show ?thesis
        by simp
    next
      case pc: True
      show ?thesis
      proof (cases fmt)
        case Nil
        with "2.prems" c0 pc show ?thesis by simp
      next
        case (Cons d fmt')
        show ?thesis
        proof (cases "d = 0")
          case True
          with "2.prems" c0 pc Cons show ?thesis by simp
        next
          case d0: False
          define x where "x = (if d = 0x64 then printint (fst (args argp)) 10 True s
               else if d = 0x78 \<or> d = 0x70 then printint (fst (args argp)) 16 False s
               else if d = 0x73 then
                 consputs (map sint (if fst (args argp) = 0 then cstr ''(null)''
                                     else takeWhile (\<lambda>b. b \<noteq> 0) (snd (args argp)))) s
               else if d = 0x25 then consputc 0x25 s
               else consputs [0x25, uint d] s)"
          have "\<exists>t. x = Ret t \<and> panicked t = 0"
            unfolding x_def
            using printint_calm [OF "2.prems"] consputs_calm [OF "2.prems"]
              consputc_calm [OF "2.prems"]
            by (simp del: consputs.simps)
          then obtain t where t: "x = Ret t" "panicked t = 0"
            by blast
          from "2.IH" (2) [OF c0 _ Cons d0 t [unfolded x_def]] pc
          have "\<exists>u. cprintf_loop fmt' args
                 (if d = 0x64 \<or> d = 0x78 \<or> d = 0x70 \<or> d = 0x73 then argp + 1 else argp) t = Ret u \<and>
                 panicked u = 0"
            by simp
          with c0 pc Cons d0 t show ?thesis
            by (simp add: x_def [symmetric])
        qed
      qed
    qed
  qed
qed

lemma panic_pcs_calm: "panicked s = 0 \<Longrightarrow> \<exists>t. panic_pcs cp i s = Ret t \<and> panicked t = 0"
proof (induction "10 - i" arbitrary: i s)
  case 0
  then show ?case
    by (simp add: panic_pcs.simps [of cp i s])
next
  case (Suc n)
  from cprintf_loop_calm [OF Suc.prems] obtain t
    where t: "cprintf_loop (cstr '' %p'') (\<lambda>j. if j = 0 then (pcs cp i, []) else stack cp (j - 1)) 0 s = Ret t"
      "panicked t = 0"
    by blast
  from Suc.hyps(2) have "n = 10 - (i + 1)" "i < 10"
    by simp_all
  with Suc.hyps(1) [of "i + 1" t] t show ?case
    by (simp add: panic_pcs.simps [of cp i s] cprintf_Some)
qed

lemma panic_sets_flag: "panicked s = 0 \<Longrightarrow> panicked (state_of (panic cp msg s)) = 1"
proof -
  assume calm: "panicked s = 0"
  have some: "panicked (state_of (panic cp (Some m) s')) = 1" if "panicked s' = 0" for m s'
  proof -
    from that have c0: "panicked ((cli s')\<lparr>locking := 0\<rparr>) = 0"
      by (simp add: cli_def)
    from cprintf_loop_calm [OF c0] obtain s1 where s1:
      "cprintf_loop (cstr ''lapicid %d: panic: '')
         (\<lambda>i. if i = 0 then (lapicid cp, []) else stack cp (i - 1)) 0 ((cli s')\<lparr>locking := 0\<rparr>) = Ret s1"
      "panicked s1 = 0"
      by blast
    from cprintf_loop_calm [OF s1(2)] obtain s2 where s2:
      "cprintf_loop m (stack cp) 0 s1 = Ret s2" "panicked s2 = 0"
      by blast
    from cprintf_loop_calm [OF s2(2)] obtain s3 where s3:
      "cprintf_loop [0x0A] (stack cp) 0 s2 = Ret s3" "panicked s3 = 0"
      by blast
    from panic_pcs_calm [OF s3(2)] obtain s4 where s4: "panic_pcs cp 0 s3 = Ret s4"
      by blast
    from s1 s2 s3 s4 show ?thesis
      by (simp add: panic.simps [of cp "Some m" s'] cprintf_Some)
  qed
  show ?thesis
  proof (cases msg)
    case (Some m)
    with calm show ?thesis
      by (simp add: some)
  next
    case None
    from calm have c0: "panicked ((cli s)\<lparr>locking := 0\<rparr>) = 0"
      by (simp add: cli_def)
    from cprintf_loop_calm [OF c0] obtain s1 where s1:
      "cprintf_loop (cstr ''lapicid %d: panic: '')
         (\<lambda>i. if i = 0 then (lapicid cp, []) else stack cp (i - 1)) 0 ((cli s)\<lparr>locking := 0\<rparr>) = Ret s1"
      "panicked s1 = 0"
      by blast
    obtain t where t: "panic cp (Some (cstr ''null fmt'')) s1 = Spin t"
      using panic_spins [of cp "Some (cstr ''null fmt'')" s1]
      by (cases "panic cp (Some (cstr ''null fmt'')) s1") auto
    with some [OF s1(2), of "cstr ''null fmt''"] have "panicked t = 1"
      by simp
    with s1 t show ?thesis
      by (simp add: None panic.simps [of cp None s] cprintf_Some cprintf_None)
  qed
qed

subsection \<open>The history table\<close>

lemma moveCommandsUp_loop_frame: "\<exists>cs. moveCommandsUp_loop i s = s\<lparr>command_stack := cs\<rparr>"
proof (induction i s rule: moveCommandsUp_loop.induct)
  case (1 i s)
  show ?case
  proof (cases "1 \<le> i")
    case True
    with "1.IH" obtain cs where
      "moveCommandsUp_loop (i - 1)
         (s\<lparr>command_stack := (command_stack s)[i := command_stack s ! (i - 1)]\<rparr>) =
       s\<lparr>command_stack := cs\<rparr>"
      by auto
    with True show ?thesis
      by (subst moveCommandsUp_loop.simps) auto
  next
    case False
    then have "moveCommandsUp_loop i s = s\<lparr>command_stack := command_stack s\<rparr>"
      by (subst moveCommandsUp_loop.simps) simp
    then show ?thesis ..
  qed
qed

lemma copyCommand_loop_frame: "\<exists>cs. copyCommand_loop ptr bp s = s\<lparr>command_stack := cs\<rparr>"
proof (induction ptr bp s rule: copyCommand_loop.induct)
  case (1 ptr bp s)
  show ?case
  proof (cases "bp \<noteq> input_e s \<and> ptr < INPUT_BUF")
    case True
    with "1.IH" [OF True refl] obtain cs where
      "copyCommand_loop (ptr + 1) (bp + 1)
         (s\<lparr>command_stack := (command_stack s)
            [0 := (command_stack s ! 0)
               [ptr := (if input_buf_at (c_rem (sint bp) INPUT_BUF) s \<noteq> 10
                        then input_buf_at (c_rem (sint bp) INPUT_BUF) s else 0)]]\<rparr>) =
       s\<lparr>command_stack := cs\<rparr>"
      by auto
    with True show ?thesis
      by (subst copyCommand_loop.simps) (auto simp: Let_def)
  next
    case False
    then have "copyCommand_loop ptr bp s = s\<lparr>command_stack := command_stack s\<rparr>"
      by (subst copyCommand_loop.simps) auto
    then show ?thesis ..
  qed
qed

lemma copyCommand_frame: "\<exists>cs. copyCommand s = s\<lparr>command_stack := cs\<rparr>"
proof -
  obtain cs1 where 1: "moveCommandsUp s = s\<lparr>command_stack := cs1\<rparr>"
    using moveCommandsUp_loop_frame [of 2 s] by (auto simp: moveCommandsUp_def)
  obtain cs2 where "copyCommand s = s\<lparr>command_stack := cs1\<rparr>\<lparr>command_stack := cs2\<rparr>"
    using copyCommand_loop_frame
      [of 0 "input_w s" "s\<lparr>command_stack := cs1[0 := replicate INPUT_BUF 0]\<rparr>"]
    by (auto simp: copyCommand_def 1 Let_def)
  then have "copyCommand s = s\<lparr>command_stack := cs2\<rparr>"
    by simp
  then show ?thesis ..
qed

lemma commit_frame:
  "\<exists>cs n. commit s = s\<lparr>command_stack := cs, saved := n, input_w := input_e s,
                        wakeups := wakeups s + 1\<rparr> \<and>
     (n = saved s \<or> n = saved s + 1 \<and> saved s < SAVED_MAX)"
proof (cases "input_e s \<noteq> input_w s + 1")
  case False
  then have "commit s = s\<lparr>command_stack := command_stack s, saved := saved s,
      input_w := input_e s, wakeups := wakeups s + 1\<rparr>"
    by (simp add: commit_def)
  then show ?thesis
    by blast
next
  case True
  obtain cs where cs: "copyCommand s = s\<lparr>command_stack := cs\<rparr>"
    using copyCommand_frame by blast
  show ?thesis
  proof (cases "saved s < SAVED_MAX")
    case True
    with \<open>input_e s \<noteq> input_w s + 1\<close> cs
    have "commit s = s\<lparr>command_stack := cs, saved := saved s + 1,
        input_w := input_e s, wakeups := wakeups s + 1\<rparr>"
      by (simp add: commit_def Let_def)
    with True show ?thesis
      by blast
  next
    case False
    with \<open>input_e s \<noteq> input_w s + 1\<close> cs
    have "commit s = s\<lparr>command_stack := cs, saved := saved s,
        input_w := input_e s, wakeups := wakeups s + 1\<rparr>"
      by (simp add: commit_def Let_def)
    then show ?thesis
      by blast
  qed
qed

subsection \<open>One key\<close>

lemma steps_refl: "steps s s"
  by (simp add: steps_def frozen_refl)

lemma steps_trans: "steps s t \<Longrightarrow> steps t u \<Longrightarrow> steps s u"
  by (auto simp: steps_def intro: frozen_trans split: if_splits)

lemma keeps_steps: "keeps s t \<Longrightarrow> steps s t"
  by (simp add: steps_def keeps_frozen) (simp add: keeps_def nav_inv_def)

lemma halts_steps: "halts s t \<Longrightarrow> steps s t"
  by (simp add: steps_def halts_def nav_inv_def)

lemma moved_steps:
  assumes "keeps (s\<lparr>command_ptr := x\<rparr>) t" and "nav_inv s \<Longrightarrow> x = - 1 \<or> 0 \<le> x \<and> x < saved s"
  shows "steps s t"
  using assms by (auto simp: steps_def keeps_def frozen_def nav_inv_def split: if_splits)

lemma writeCommand_moved:
  "(nav_inv s \<Longrightarrow> x = - 1 \<or> 0 \<le> x \<and> x < saved s) \<Longrightarrow>
   steps s (state_of (writeCommand (s\<lparr>command_ptr := x\<rparr>)))"
  by (rule moved_steps [OF writeCommand_keeps [OF keeps_refl]])

lemma moveThroughCommandHistory_steps: "steps s (state_of (moveThroughCommandHistory c s))"
proof -
  have up0: "steps s (state_of (writeCommand (s\<lparr>command_ptr := 0\<rparr>)))" if "1 \<le> saved s"
    using that by (intro writeCommand_moved) simp
  have up: "steps s (state_of (case writeCommand (s\<lparr>command_ptr := command_ptr s + 1\<rparr>) of
                 Ret t \<Rightarrow> Ret (if command_ptr t = SAVED_MAX
                                 then t\<lparr>command_ptr := SAVED_MAX - 1\<rparr> else t)
               | Spin t \<Rightarrow> Spin t))"
    if "command_ptr s \<noteq> - 1" "command_ptr s + 1 < saved s"
  proof -
    let ?x = "writeCommand (s\<lparr>command_ptr := command_ptr s + 1\<rparr>)"
    have k: "keeps (s\<lparr>command_ptr := command_ptr s + 1\<rparr>) (state_of ?x)"
      by (rule writeCommand_keeps [OF keeps_refl])
    show ?thesis
      using k that
      by (cases ?x) (auto simp: steps_def keeps_def frozen_def nav_inv_def split: if_splits)
  qed
  have down: "steps s (state_of (writeCommand (s\<lparr>command_ptr := command_ptr s - 1\<rparr>)))"
    if "0 < command_ptr s"
    using that by (intro writeCommand_moved) (auto simp: nav_inv_def)
  have clear: "steps s (state_of (case clearCommandLine s of
                 Ret t \<Rightarrow> Ret (t\<lparr>command_ptr := - 1\<rparr>) | Spin t \<Rightarrow> Spin t))"
  proof -
    have k: "keeps s (state_of (clearCommandLine s))"
      by (rule clearCommandLine_keeps [OF keeps_refl])
    show ?thesis
      using k
      by (cases "clearCommandLine s")
         (auto simp: steps_def keeps_def frozen_def nav_inv_def split: if_splits)
  qed
  show ?thesis
    unfolding moveThroughCommandHistory_def
    using up0 up down clear by (simp add: steps_refl)
qed

lemma handleKey_steps: "steps s (state_of (handleKey c s))"
proof -
  have kill: "steps s (state_of (clearCommandLine s))"
    by (intro keeps_steps clearCommandLine_keeps keeps_refl)
  have bs: "steps s (state_of (case consputc BACKSPACE (s\<lparr>input_e := input_e s - 1\<rparr>) of
                 Ret t \<Rightarrow> Ret (t\<lparr>command_ptr := - 1\<rparr>) | Spin t \<Rightarrow> Spin t))"
  proof -
    let ?x = "consputc BACKSPACE (s\<lparr>input_e := input_e s - 1\<rparr>)"
    have k: "keeps s (state_of ?x)"
      by (intro consputc_keeps) (simp add: keeps_def)
    show ?thesis
      using k by (cases ?x) (auto simp: steps_def keeps_def frozen_def nav_inv_def split: if_splits)
  qed
  have ins: "steps s (state_of (case consputc c' (s\<lparr>input_buf := b, input_e := e, command_ptr := - 1\<rparr>) of
                 Ret t \<Rightarrow> (if g t then Ret (commit t) else Ret t) | Spin t \<Rightarrow> Spin t))"
    for c' b e g
  proof -
    let ?s2 = "s\<lparr>input_buf := b, input_e := e, command_ptr := - 1\<rparr>"
    let ?x = "consputc c' ?s2"
    have k: "keeps ?s2 (state_of ?x)"
      by (intro consputc_keeps keeps_refl)
    show ?thesis
    proof (cases ?x)
      case (Spin t)
      with k show ?thesis
        by (auto simp: steps_def keeps_def frozen_def nav_inv_def split: if_splits)
    next
      case (Ret t)
      obtain cs n where c: "commit t = t\<lparr>command_stack := cs, saved := n, input_w := input_e t,
          wakeups := wakeups t + 1\<rparr>" "n = saved t \<or> n = saved t + 1 \<and> saved t < SAVED_MAX"
        using commit_frame [of t] by blast
      from k Ret c(2) show ?thesis
        by (auto simp: c(1) steps_def keeps_def frozen_def nav_inv_def split: if_splits)
    qed
  qed
  show ?thesis
    unfolding handleKey_def Let_def
    using kill bs ins moveThroughCommandHistory_steps [of s c]
    by (simp add: steps_refl)
qed

lemma consoleintr_loop_steps: "steps s (state_of (snd (consoleintr_loop cs d s)))"
proof (induction cs arbitrary: d s)
  case Nil
  then show ?case by (simp add: steps_refl)
next
  case (Cons c cs)
  show ?case
  proof (cases "c < 0")
    case True
    then show ?thesis by (simp add: steps_refl)
  next
    case False
    show ?thesis
    proof (cases "handleKey c s")
      case (Spin t)
      with handleKey_steps [of s c] False show ?thesis by simp
    next
      case (Ret t)
      with handleKey_steps [of s c] have "steps s t" by simp
      moreover have "steps t (state_of (snd (consoleintr_loop cs (if c = CTRL_P then True else d) t)))"
        by (rule Cons.IH)
      ultimately show ?thesis
        using False Ret by (auto intro: steps_trans)
    qed
  qed
qed

lemma consoleintr_steps: "steps s (state_of (consoleintr getc s))"
proof -
  obtain d x where l: "consoleintr_loop getc False s = (d, x)"
    by (cases "consoleintr_loop getc False s")
  with consoleintr_loop_steps [of s getc False] have x: "steps s (state_of x)"
    by simp
  have "steps t (procdump t)" for t
    by (simp add: procdump_def steps_def frozen_def nav_inv_def)
  with x show ?thesis
    by (cases x) (auto simp: consoleintr_def l intro: steps_trans)
qed

subsection \<open>The other entry points\<close>

lemma consoleread_loop_frame:
  "\<exists>r. read_state (consoleread_loop killed target dst n s) = s\<lparr>input_r := r\<rparr>"
proof (induction killed target dst n s rule: consoleread_loop.induct)
  case (1 killed target dst n s)
  have same: "\<exists>r. s = s\<lparr>input_r := r\<rparr>"
    by (rule exI [of _ "input_r s"]) simp
  have upd: "\<exists>r. s\<lparr>input_r := a\<rparr> = s\<lparr>input_r := r\<rparr>" for a
    by blast
  have upd2: "\<exists>r. s\<lparr>input_r := a, input_r := b\<rparr> = s\<lparr>input_r := r\<rparr>" for a b
    by (rule exI [of _ b]) simp
  show ?case
  proof (cases "0 < n \<and> input_r s \<noteq> input_w s \<and>
      sint (input_buf s ! (unat (input_r s) mod INPUT_BUF)) \<noteq> CTRL_D \<and>
      sint (input_buf s ! (unat (input_r s) mod INPUT_BUF)) \<noteq> NEWLINE")
    case True
    with "1.IH" [OF _ _ refl refl] obtain r where
      "read_state (consoleread_loop killed target
         (dst @ [input_buf s ! (unat (input_r s) mod INPUT_BUF)]) (n - 1)
         (s\<lparr>input_r := input_r s + 1\<rparr>)) = s\<lparr>input_r := input_r s + 1\<rparr>\<lparr>input_r := r\<rparr>"
      by auto
    with True show ?thesis
      by (subst consoleread_loop.simps) (auto simp: Let_def)
  next
    case False
    then show ?thesis
      using same upd upd2
      by (subst consoleread_loop.simps) (auto simp: Let_def)
  qed
qed

lemma consoleread_loop_keeps: "keeps s (read_state (consoleread_loop killed target dst n s))"
proof -
  obtain r where "read_state (consoleread_loop killed target dst n s) = s\<lparr>input_r := r\<rparr>"
    using consoleread_loop_frame by blast
  then show ?thesis
    by (simp add: keeps_def)
qed

lemma exec_steps: "steps s (exec call s)"
proof (cases call)
  case (Intr getc)
  then show ?thesis by (simp add: consoleintr_steps)
next
  case (Read killed n)
  then show ?thesis by (simp add: consoleread_def keeps_steps consoleread_loop_keeps)
next
  case (Wake killed sleeper)
  then show ?thesis
    by (cases sleeper) (simp_all add: keeps_steps consoleread_loop_keeps steps_refl)
next
  case (Write bs)
  then show ?thesis
    by (simp add: consolewrite_def keeps_steps consolewrite_loop_keeps keeps_refl)
next
  case (Printf cp fmt args)
  then show ?thesis by (simp add: halts_steps cprintf_halts)
next
  case (Panic cp msg)
  then show ?thesis by (simp add: halts_steps panic_halts)
next
  case Init
  then show ?thesis by (simp add: consoleinit_def steps_def frozen_def nav_inv_def)
qed

lemma execs_steps: "steps s (execs calls s)"
proof (induction calls arbitrary: s)
  case Nil
  then show ?case by (simp add: steps_refl)
next
  case (Cons c cs)
  have "steps s (exec c s)" by (rule exec_steps)
  moreover have "steps (exec c s) (execs cs (exec c s))" by (rule Cons.IH)
  ultimately show ?case by (auto intro: steps_trans)
qed

subsection \<open>The history navigator\<close>

lemma stream_snoc:
  "stream (Suc k) p b = stream k p b @ [b ! (unat (p + of_nat k) mod INPUT_BUF)]"
proof (induction k arbitrary: p)
  case 0
  show ?case by simp
next
  case (Suc k)
  have "stream (Suc (Suc k)) p b = b ! (unat p mod INPUT_BUF) # stream (Suc k) (p + 1) b"
    by simp
  also have "\<dots> = b ! (unat p mod INPUT_BUF) #
      (stream k (p + 1) b @ [b ! (unat (p + 1 + of_nat k) mod INPUT_BUF)])"
    by (simp only: Suc.IH)
  also have "p + 1 + of_nat k = p + of_nat (Suc k)"
    by simp
  finally show ?case
    by simp
qed

lemma edit_line_empty: "input_e s = input_w s \<Longrightarrow> edit_line s = []"
  by (simp add: edit_line_def)

lemma edit_line_last:
  assumes "unat (input_e s - input_w s) = Suc k"
  shows "edit_line s =
    stream k (input_w s) (input_buf s) @ [input_buf s ! (unat (input_e s - 1) mod INPUT_BUF)]"
proof -
  have "of_nat (unat (input_e s - input_w s)) = input_e s - input_w s"
    by simp
  with assms have "(of_nat (Suc k) :: uint) = input_e s - input_w s"
    by simp
  then have "input_w s + of_nat k = input_e s - 1"
    by (simp add: algebra_simps)
  with assms show ?thesis
    by (simp only: edit_line_def stream_snoc)
qed

lemma consputc_calm_fields:
  "panicked s = 0 \<Longrightarrow> \<exists>u c. consputc ch s = Ret (s\<lparr>uart := u, cga := c\<rparr>)"
  by (simp add: consputc_def cgaputc_def uartputc_def) blast

lemma clearCommandLine_erases:
  assumes "panicked s = 0" and "10 \<notin> set (edit_line s)"
  shows "\<exists>t. clearCommandLine s = Ret t \<and> input_e t = input_w s \<and> input_w t = input_w s \<and>
    command_ptr t = command_ptr s \<and> saved t = saved s"
  using assms
proof (induction "unat (input_e s - input_w s)" arbitrary: s)
  case 0
  then have "input_e s = input_w s"
    by (simp add: unat_eq_zero)
  then show ?case
    by (simp add: clearCommandLine.simps [of s])
next
  case (Suc k)
  from Suc.hyps(2) have k: "unat (input_e s - input_w s) = Suc k"
    by simp
  then have ne: "input_e s \<noteq> input_w s"
    by auto
  from Suc.prems(2) edit_line_last [OF k]
  have last: "input_buf s ! (unat (input_e s - 1) mod INPUT_BUF) \<noteq> 10"
    and front: "10 \<notin> set (stream k (input_w s) (input_buf s))"
    by auto
  define s1 where "s1 = s\<lparr>input_e := input_e s - 1\<rparr>"
  from Suc.prems(1) have "panicked s1 = 0"
    by (simp add: s1_def)
  then obtain u c where put: "consputc BACKSPACE s1 = Ret (s1\<lparr>uart := u, cga := c\<rparr>)"
    using consputc_calm_fields by blast
  define t where "t = s1\<lparr>uart := u, cga := c\<rparr>"
  have sw: "input_e s - 1 - input_w s = input_e s - input_w s - 1"
    by simp
  from ne have "input_e s - input_w s \<noteq> 0"
    by simp
  then have "unat (input_e s - input_w s - 1) = unat (input_e s - input_w s) - 1"
    by (rule unat_minus_one)
  with k have "unat (input_e s - 1 - input_w s) = k"
    unfolding sw by simp
  then have k': "unat (input_e t - input_w t) = k"
    by (simp add: t_def s1_def)
  then have "edit_line t = stream k (input_w s) (input_buf s)"
    by (simp add: edit_line_def) (simp add: t_def s1_def)
  with front have "10 \<notin> set (edit_line t)"
    by simp
  moreover have "panicked t = 0"
    using Suc.prems(1) by (simp add: t_def s1_def)
  ultimately obtain t' where "clearCommandLine t = Ret t'" "input_e t' = input_w t"
    "input_w t' = input_w t" "command_ptr t' = command_ptr t" "saved t' = saved t"
    using Suc.hyps(1) [of t] k' by auto
  with ne last put show ?case
    by (subst clearCommandLine.simps) (simp add: s1_def [symmetric] t_def [symmetric], simp add: t_def s1_def)
qed

subsection \<open>No newline byte in the edit line\<close>

lemma stream_nth:
  "i < k \<Longrightarrow> stream k p b ! i = b ! (unat (p + of_nat i) mod INPUT_BUF)"
proof (induction k arbitrary: p i)
  case 0
  then show ?case by simp
next
  case (Suc k)
  show ?case
  proof (cases i)
    case 0
    then show ?thesis by simp
  next
    case (Suc j)
    with Suc.prems have "j < k" by simp
    then have "stream k (p + 1) b ! j = b ! (unat (p + 1 + of_nat j) mod INPUT_BUF)"
      by (rule Suc.IH)
    moreover have "p + 1 + of_nat j = p + of_nat (Suc j)"
      by simp
    ultimately show ?thesis
      using Suc by simp
  qed
qed

lemma edit_line_clean:
  "10 \<notin> set (edit_line s) \<longleftrightarrow>
   (\<forall>i < unat (input_e s - input_w s).
      input_buf s ! (unat (input_w s + of_nat i) mod INPUT_BUF) \<noteq> 10)"
  by (auto simp: edit_line_def in_set_conv_nth length_stream stream_nth)

lemma tidy_same_ring:
  assumes "input_buf t = input_buf s" "input_w t = input_w s" "input_e t = input_e s"
    "panicked t = panicked s"
  shows "tidy t = tidy s"
  using assms by (simp add: tidy_def edit_line_def)

lemma tidy_empty:
  "length (input_buf s) = INPUT_BUF \<Longrightarrow> input_e s = input_w s \<Longrightarrow> tidy s"
  by (simp add: tidy_def edit_line_def)

lemma tidy_halted: "length (input_buf s) = INPUT_BUF \<Longrightarrow> panicked s \<noteq> 0 \<Longrightarrow> tidy s"
  by (simp add: tidy_def)

lemma tidy_length: "tidy s \<Longrightarrow> length (input_buf s) = INPUT_BUF"
  by (simp add: tidy_def)

lemma tidy_extend:
  assumes "tidy s" and "panicked s = 0 \<Longrightarrow> x \<noteq> 10"
  shows "tidy (s\<lparr>input_buf := (input_buf s)[unat (input_e s) mod INPUT_BUF := x],
                 input_e := input_e s + 1\<rparr>)"
proof (cases "panicked s = 0")
  case False
  with assms(1) show ?thesis
    by (simp add: tidy_def)
next
  case True
  with assms have x: "x \<noteq> 10" and len: "length (input_buf s) = INPUT_BUF"
    and old: "\<And>i. i < unat (input_e s - input_w s) \<Longrightarrow>
      input_buf s ! (unat (input_w s + of_nat i) mod INPUT_BUF) \<noteq> 10"
    by (simp_all add: tidy_def edit_line_clean)
  let ?b = "(input_buf s)[unat (input_e s) mod INPUT_BUF := x]"
  have new: "?b ! (unat (input_w s + of_nat i) mod INPUT_BUF) \<noteq> 10"
    if i: "i < unat (input_e s + 1 - input_w s)" for i
  proof (cases "unat (input_w s + of_nat i) mod INPUT_BUF = unat (input_e s) mod INPUT_BUF")
    case True
    with len x show ?thesis
      by simp
  next
    case other: False
    have sw: "input_e s + 1 - input_w s = input_e s - input_w s + 1"
      by simp
    have le: "unat (input_e s - input_w s + 1) \<le> unat (input_e s - input_w s) + 1"
      by (simp add: unat_word_ariths)
    from i have i': "i < unat (input_e s - input_w s + 1)"
      unfolding sw .
    have "i < unat (input_e s - input_w s)"
    proof (rule ccontr)
      assume "\<not> i < unat (input_e s - input_w s)"
      with le i' have "i = unat (input_e s - input_w s)"
        by linarith
      then have "input_w s + of_nat i = input_e s"
        by simp
      with other show False
        by simp
    qed
    with old [of i] other show ?thesis
      by simp
  qed
  from len new True show ?thesis
    by (simp add: tidy_def edit_line_clean)
qed

lemma tidy_shrink:
  assumes "tidy s" and "input_e s \<noteq> input_w s"
  shows "tidy (s\<lparr>input_e := input_e s - 1\<rparr>)"
proof -
  from assms(2) have "input_e s - input_w s \<noteq> 0"
    by simp
  then have eq: "unat (input_e s - input_w s - 1) = unat (input_e s - input_w s) - 1"
    by (rule unat_minus_one)
  have sw: "input_e s - 1 - input_w s = input_e s - input_w s - 1"
    by simp
  have "unat (input_e s - 1 - input_w s) \<le> unat (input_e s - input_w s)"
    unfolding sw eq by simp
  with assms(1) show ?thesis
    by (auto simp: tidy_def edit_line_clean split: if_splits)
qed

lemma consputc_tidy: "tidy s \<Longrightarrow> tidy (state_of (consputc c s))"
  by (auto simp: consputc_def cgaputc_def uartputc_def cli_def tidy_def edit_line_def)

lemma clearCommandLine_tidy: "tidy s \<Longrightarrow> tidy (state_of (clearCommandLine s))"
proof (induction s rule: clearCommandLine.induct)
  case (1 s)
  show ?case
    apply (subst clearCommandLine.simps)
    apply (intro if_pres [where P = tidy] bind_pres [where P = tidy] consputc_tidy tidy_shrink
        Ret_pres [where P = tidy] "1.prems")
      apply simp
     apply (rule "1.IH")
       apply simp_all
    done
qed

lemma writeCommand_loop_tidy: "tidy s \<Longrightarrow> tidy (state_of (writeCommand_loop i s))"
proof (induction i s rule: writeCommand_loop.induct)
  case (1 i s)
  show ?case
    apply (subst writeCommand_loop.simps)
    apply (unfold Let_def)
    apply (intro if_pres [where P = tidy] bind_pres [where P = tidy] consputc_tidy tidy_extend
        Ret_pres [where P = tidy] "1.prems")
      apply simp
     apply (rule "1.IH")
        apply simp_all
    done
qed

lemma tidy_color: "tidy (s\<lparr>history_color := h\<rparr>) = tidy s"
  by (rule tidy_same_ring) simp_all

lemma tidy_cursor: "tidy (s\<lparr>command_ptr := x\<rparr>) = tidy s"
  by (rule tidy_same_ring) simp_all

lemma writeCommand_tidy: "tidy s \<Longrightarrow> tidy (state_of (writeCommand s))"
  unfolding writeCommand_def
  by (intro bind_pres [where P = tidy] clearCommandLine_tidy writeCommand_loop_tidy
      Ret_pres [where P = tidy]) (simp_all add: tidy_color)

lemma moveThroughCommandHistory_tidy:
  "tidy s \<Longrightarrow> tidy (state_of (moveThroughCommandHistory c s))"
  unfolding moveThroughCommandHistory_def
  by (intro if_pres [where P = tidy] bind_pres [where P = tidy] clearCommandLine_tidy
      writeCommand_tidy Ret_pres [where P = tidy]) (simp_all add: tidy_cursor)

lemma commit_tidy: "length (input_buf s) = INPUT_BUF \<Longrightarrow> tidy (commit s)"
proof -
  assume len: "length (input_buf s) = INPUT_BUF"
  obtain cs n where "commit s = s\<lparr>command_stack := cs, saved := n, input_w := input_e s,
      wakeups := wakeups s + 1\<rparr>"
    using commit_frame [of s] by blast
  with len show ?thesis
    by (simp add: tidy_empty)
qed

lemma handleKey_tidy:
  assumes "tidy s" and "plain c"
  shows "tidy (state_of (handleKey c s))"
proof -
  have bs: "tidy (state_of (case consputc BACKSPACE (s\<lparr>input_e := input_e s - 1\<rparr>) of
                 Ret t \<Rightarrow> Ret (t\<lparr>command_ptr := - 1\<rparr>) | Spin t \<Rightarrow> Spin t))"
    if "input_e s \<noteq> input_w s"
    using that assms(1)
    by (intro bind_pres [where P = tidy] consputc_tidy tidy_shrink Ret_pres [where P = tidy])
       (simp_all add: tidy_cursor)
  have ins: "tidy (state_of (case consputc c' (s\<lparr>input_buf := (input_buf s)[unat (input_e s) mod INPUT_BUF := word_of_int c'],
                    input_e := input_e s + 1, command_ptr := - 1\<rparr>) of
                 Ret t \<Rightarrow> (if c' = NEWLINE \<or> c' = CTRL_D \<or> input_e t = input_r t + INPUT_BUF
                            then Ret (commit t) else Ret t)
               | Spin t \<Rightarrow> Spin t))"
    if c': "c' = (if c = CARRIAGE_RETURN then NEWLINE else c)" for c'
  proof -
    let ?s1 = "s\<lparr>input_buf := (input_buf s)[unat (input_e s) mod INPUT_BUF := word_of_int c'],
        input_e := input_e s + 1\<rparr>"
    let ?s2 = "?s1\<lparr>command_ptr := - 1\<rparr>"
    have len: "length (input_buf ?s2) = INPUT_BUF"
      using assms(1) by (simp add: tidy_def)
    show ?thesis
    proof (cases "panicked s = 0")
      case False
      then have "consputc c' ?s2 = Spin (cli ?s2)"
        by (simp add: consputc_def)
      moreover have "tidy (cli ?s2)"
        using len False by (intro tidy_halted) (simp_all add: cli_def)
      ultimately show ?thesis
        by simp
    next
      case calm: True
      then obtain u g where put: "consputc c' ?s2 = Ret (?s2\<lparr>uart := u, cga := g\<rparr>)"
        using consputc_calm_fields [of ?s2 c'] by auto
      let ?t = "?s2\<lparr>uart := u, cga := g\<rparr>"
      show ?thesis
      proof (cases "c' = NEWLINE \<or> c' = CTRL_D \<or> input_e ?t = input_r ?t + INPUT_BUF")
        case True
        moreover have "tidy (commit ?t)"
          using len by (intro commit_tidy) simp
        ultimately show ?thesis
          using put by simp
      next
        case False
        with c' assms(2) have "(word_of_int c' :: byte) \<noteq> 10"
          by (auto simp: plain_def split: if_splits)
        with assms(1) have "tidy ?s1"
          by (intro tidy_extend)
        then have "tidy ?t"
          by (simp add: tidy_same_ring [of ?t ?s1])
        with False put show ?thesis
          by simp
      qed
    qed
  qed
  show ?thesis
    unfolding handleKey_def Let_def
    by (intro if_pres [where P = tidy] Ret_pres [where P = tidy] assms(1) clearCommandLine_tidy
        moveThroughCommandHistory_tidy bs ins [OF refl])
qed

lemma consoleintr_loop_tidy:
  "tidy s \<Longrightarrow> list_all plain cs \<Longrightarrow> tidy (state_of (snd (consoleintr_loop cs d s)))"
proof (induction cs arbitrary: d s)
  case Nil
  then show ?case by simp
next
  case (Cons c cs)
  from Cons.prems have t: "tidy (state_of (handleKey c s))"
    by (intro handleKey_tidy) simp_all
  show ?case
  proof (cases "handleKey c s")
    case (Spin u)
    with t Cons.prems show ?thesis by simp
  next
    case (Ret u)
    with t Cons.prems Cons.IH [of u] show ?thesis by simp
  qed
qed

lemma consoleintr_tidy:
  assumes "tidy s" and "list_all plain getc"
  shows "tidy (state_of (consoleintr getc s))"
proof -
  obtain d x where l: "consoleintr_loop getc False s = (d, x)"
    by (cases "consoleintr_loop getc False s")
  with consoleintr_loop_tidy [OF assms, of False] have x: "tidy (state_of x)"
    by simp
  have "tidy (procdump t) = tidy t" for t
    by (rule tidy_same_ring) (simp_all add: procdump_def)
  with x show ?thesis
    by (cases x) (auto simp: consoleintr_def l)
qed

lemma consoleread_loop_tidy:
  "tidy s \<Longrightarrow> tidy (read_state (consoleread_loop killed target dst n s))"
proof -
  assume t: "tidy s"
  obtain r where "read_state (consoleread_loop killed target dst n s) = s\<lparr>input_r := r\<rparr>"
    using consoleread_loop_frame by blast
  moreover have "tidy (s\<lparr>input_r := r\<rparr>) = tidy s"
    by (rule tidy_same_ring) simp_all
  ultimately show ?thesis
    using t by simp
qed

lemma tidy_enter: "tidy s \<Longrightarrow> tidy ((cli s)\<lparr>locking := 0\<rparr>)"
proof -
  have "tidy ((cli s)\<lparr>locking := 0\<rparr>) = tidy s"
    by (rule tidy_same_ring) (simp_all add: cli_def)
  then show "tidy s \<Longrightarrow> tidy ((cli s)\<lparr>locking := 0\<rparr>)"
    by simp
qed

lemma tidy_leave: "tidy s \<Longrightarrow> tidy (s\<lparr>panicked := 1\<rparr>)"
  by (simp add: tidy_def)

lemma exec_tidy: "tidy s \<Longrightarrow> plain_call call \<Longrightarrow> tidy (exec call s)"
proof (cases call)
  case (Intr getc)
  assume "tidy s" "plain_call call"
  with Intr show ?thesis by (simp add: consoleintr_tidy)
next
  case (Read killed n)
  assume "tidy s"
  with Read show ?thesis by (simp add: consoleread_def consoleread_loop_tidy)
next
  case (Wake killed sleeper)
  assume "tidy s"
  with Wake show ?thesis by (cases sleeper) (simp_all add: consoleread_loop_tidy)
next
  case (Write bs)
  assume "tidy s"
  with Write show ?thesis
    by (simp add: consolewrite_def consolewrite_loop_pres [where P = tidy] consputc_tidy)
next
  case (Printf cp fmt args)
  assume "tidy s"
  with Printf show ?thesis
    by (simp add: cprintf_pres [where P = tidy] consputc_tidy tidy_enter tidy_leave)
next
  case (Panic cp msg)
  assume "tidy s"
  with Panic show ?thesis
    by (simp add: panic_pres [where P = tidy] consputc_tidy tidy_enter tidy_leave)
next
  case Init
  assume "tidy s"
  moreover have "tidy (consoleinit s) = tidy s"
    by (rule tidy_same_ring) (simp_all add: consoleinit_def)
  ultimately show ?thesis
    using Init by simp
qed

lemma execs_tidy: "tidy s \<Longrightarrow> list_all plain_call calls \<Longrightarrow> tidy (execs calls s)"
  by (induction calls arbitrary: s) (simp_all add: exec_tidy)

lemma tidy_boot: "tidy boot_console"
  by (simp add: tidy_def boot_console_def edit_line_def)

text \<open>The memory below \<^verbatim>\<open>input.buf\<close> plays no part in this: the history cursor stays
  in its domain and the edit line free of newline bytes from the boot statics with any
  contents there.\<close>

lemma boot_memory:
  "nav_inv (execs calls (boot_console\<lparr>below_input := mem\<rparr>))"
  "list_all plain_call calls \<Longrightarrow>
     panicked (execs calls (boot_console\<lparr>below_input := mem\<rparr>)) = 0 \<Longrightarrow>
     10 \<notin> set (edit_line (execs calls (boot_console\<lparr>below_input := mem\<rparr>)))"
proof -
  have "nav_inv (boot_console\<lparr>below_input := mem\<rparr>)"
    by (simp add: nav_inv_def boot_console_def)
  then show "nav_inv (execs calls (boot_console\<lparr>below_input := mem\<rparr>))"
    using execs_steps [of "boot_console\<lparr>below_input := mem\<rparr>" calls] by (simp add: steps_def)
  have "tidy (boot_console\<lparr>below_input := mem\<rparr>)"
    by (simp add: tidy_def boot_console_def edit_line_def)
  then show "10 \<notin> set (edit_line (execs calls (boot_console\<lparr>below_input := mem\<rparr>)))"
    if "list_all plain_call calls" "panicked (execs calls (boot_console\<lparr>below_input := mem\<rparr>)) = 0"
    using that execs_tidy [of "boot_console\<lparr>below_input := mem\<rparr>" calls] by (simp add: tidy_def)
qed

lemma plain_codes:
  "0 \<le> c \<Longrightarrow> c < 256 \<Longrightarrow> plain c" "plain (S KEY_UP)" "plain (S KEY_DN)"
proof -
  show "plain c" if "0 \<le> c" "c < 256"
  proof -
    have "uint (word_of_int c :: byte) = c"
      using that by (simp add: uint_word_of_int take_bit_int_eq_self)
    then have "c = 10" if "(word_of_int c :: byte) = 10"
      using that by simp
    then show ?thesis
      by (simp add: plain_def)
  qed
  show "plain (S KEY_UP)" "plain (S KEY_DN)"
    by (simp_all add: plain_def)
qed

subsection \<open>The ring cursors outside a recall\<close>

text \<open>
  Every key other than the two history keys keeps the cursors of the ring in order, and so
  does a read: the default case tests for room before it stores a byte, backspace and
  kill-line stop at \<^verbatim>\<open>input.w\<close>, and a read stops at \<^verbatim>\<open>input.w\<close>.
\<close>

lemma ring_edit: "ring_inv s \<Longrightarrow> edit_inv s"
  by (simp add: ring_inv_def edit_inv_def)

lemma ring_grow:
  fixes r w e :: uint
  assumes "unat (w - r) \<le> unat (e - r)" and "e - r < INPUT_BUF"
  shows "unat (w - r) \<le> unat (e + 1 - r) \<and> unat (e + 1 - r) \<le> INPUT_BUF"
proof -
  have sw: "e + 1 - r = e - r + 1"
    by simp
  from assms(2) have "unat (e - r) < INPUT_BUF"
    by (simp add: word_less_nat_alt)
  then have "unat (e - r + 1) = unat (e - r) + 1"
    by (simp add: unat_word_ariths)
  with assms(1) \<open>unat (e - r) < INPUT_BUF\<close> show ?thesis
    unfolding sw by simp
qed

lemma ring_back:
  fixes r w e :: uint
  assumes "unat (w - r) \<le> unat (e - r)" and "unat (e - r) \<le> INPUT_BUF" and "e \<noteq> w"
  shows "unat (w - r) \<le> unat (e - 1 - r) \<and> unat (e - 1 - r) \<le> INPUT_BUF"
proof -
  have sw: "e - 1 - r = e - r - 1"
    by simp
  from assms(3) have "e - r \<noteq> w - r"
    by simp
  then have "unat (e - r) \<noteq> unat (w - r)"
    by (simp add: word_unat_eq_iff)
  with assms(1) have lt: "unat (w - r) < unat (e - r)"
    by simp
  then have "e - r \<noteq> 0"
    by auto
  then have "unat (e - r - 1) = unat (e - r) - 1"
    by (rule unat_minus_one)
  with lt assms(2) show ?thesis
    unfolding sw by arith
qed

lemma ring_read:
  fixes r w e :: uint
  assumes "unat (w - r) \<le> unat (e - r)" and "unat (e - r) \<le> INPUT_BUF" and "r \<noteq> w"
  shows "unat (w - (r + 1)) \<le> unat (e - (r + 1)) \<and> unat (e - (r + 1)) \<le> INPUT_BUF"
proof -
  have sw: "w - (r + 1) = w - r - 1" "e - (r + 1) = e - r - 1"
    by simp_all
  from assms(3) have w0: "w - r \<noteq> 0"
    by simp
  then have "0 < unat (w - r)"
    by (simp add: unat_gt_0)
  with assms(1) have "e - r \<noteq> 0"
    by auto
  then have "unat (e - r - 1) = unat (e - r) - 1"
    by (rule unat_minus_one)
  moreover from w0 have "unat (w - r - 1) = unat (w - r) - 1"
    by (rule unat_minus_one)
  ultimately show ?thesis
    unfolding sw using assms(1,2) by arith
qed

lemma ring_same:
  assumes "input_r t = input_r s" "input_w t = input_w s" "input_e t = input_e s"
  shows "ring_inv t = ring_inv s"
  using assms by (simp add: ring_inv_def)

lemma consputc_ring: "ring_inv s \<Longrightarrow> ring_inv (state_of (consputc c s))"
  by (simp add: consputc_def cgaputc_def uartputc_def cli_def ring_inv_def)

lemma ring_shrink:
  "ring_inv s \<Longrightarrow> input_e s \<noteq> input_w s \<Longrightarrow> ring_inv (s\<lparr>input_e := input_e s - 1\<rparr>)"
  using ring_back [of "input_w s" "input_r s" "input_e s"] by (simp add: ring_inv_def)

lemma clearCommandLine_ring: "ring_inv s \<Longrightarrow> ring_inv (state_of (clearCommandLine s))"
proof (induction s rule: clearCommandLine.induct)
  case (1 s)
  show ?case
    apply (subst clearCommandLine.simps)
    apply (intro if_pres [where P = ring_inv] bind_pres [where P = ring_inv] consputc_ring
        ring_shrink Ret_pres [where P = ring_inv] "1.prems")
      apply simp
     apply (rule "1.IH")
       apply simp_all
    done
qed

lemma commit_ring: "unat (input_e s - input_r s) \<le> INPUT_BUF \<Longrightarrow> ring_inv (commit s)"
proof -
  assume le: "unat (input_e s - input_r s) \<le> INPUT_BUF"
  obtain cs n where "commit s = s\<lparr>command_stack := cs, saved := n, input_w := input_e s,
      wakeups := wakeups s + 1\<rparr>"
    using commit_frame [of s] by blast
  with le show ?thesis
    by (simp add: ring_inv_def)
qed

lemma handleKey_ring:
  assumes "ring_inv s" and "c \<noteq> S KEY_UP" and "c \<noteq> S KEY_DN"
  shows "ring_inv (state_of (handleKey c s))"
proof -
  have bs: "ring_inv (state_of (case consputc BACKSPACE (s\<lparr>input_e := input_e s - 1\<rparr>) of
                 Ret t \<Rightarrow> Ret (t\<lparr>command_ptr := - 1\<rparr>) | Spin t \<Rightarrow> Spin t))"
    if "input_e s \<noteq> input_w s"
    using that assms(1)
    by (intro bind_pres [where P = ring_inv] consputc_ring ring_shrink Ret_pres [where P = ring_inv])
       (simp_all add: ring_same [of "t\<lparr>command_ptr := - 1\<rparr>" t for t])
  have ins: "ring_inv (state_of (case consputc c' (s\<lparr>input_buf := b,
                    input_e := input_e s + 1, command_ptr := - 1\<rparr>) of
                 Ret t \<Rightarrow> (if g t then Ret (commit t) else Ret t)
               | Spin t \<Rightarrow> Spin t))"
    if room: "c \<noteq> 0 \<and> input_e s - input_r s < INPUT_BUF" for c' b g
  proof -
    let ?s2 = "s\<lparr>input_buf := b, input_e := input_e s + 1, command_ptr := - 1\<rparr>"
    from assms(1) room have s2: "ring_inv ?s2"
      using ring_grow [of "input_w s" "input_r s" "input_e s"] by (simp add: ring_inv_def)
    then have x: "ring_inv (state_of (consputc c' ?s2))"
      by (rule consputc_ring)
    show ?thesis
    proof (cases "consputc c' ?s2")
      case (Spin t)
      with x show ?thesis by simp
    next
      case (Ret t)
      with x have "ring_inv t" by simp
      then have "ring_inv (commit t)"
        by (intro commit_ring) (simp add: ring_inv_def)
      with Ret \<open>ring_inv t\<close> show ?thesis by simp
    qed
  qed
  show ?thesis
    unfolding handleKey_def Let_def
    using assms(2,3)
    by (intro if_pres [where P = ring_inv] Ret_pres [where P = ring_inv] assms(1)
        clearCommandLine_ring bs ins) simp_all
qed

lemma consoleread_loop_ring:
  "ring_inv s \<Longrightarrow> ring_inv (read_state (consoleread_loop killed target dst n s))"
proof (induction killed target dst n s rule: consoleread_loop.induct)
  case (1 killed target dst n s)
  let ?s1 = "s\<lparr>input_r := input_r s + 1\<rparr>"
  have undo: "?s1\<lparr>input_r := input_r ?s1 - 1\<rparr> = s"
    by simp
  have step: "ring_inv ?s1" if "input_r s \<noteq> input_w s"
    using that "1.prems" ring_read [of "input_w s" "input_r s" "input_e s"]
    by (simp add: ring_inv_def)
  show ?case
  proof (cases "0 < n \<and> input_r s \<noteq> input_w s \<and>
      sint (input_buf s ! (unat (input_r s) mod INPUT_BUF)) \<noteq> CTRL_D \<and>
      sint (input_buf s ! (unat (input_r s) mod INPUT_BUF)) \<noteq> NEWLINE")
    case True
    with step have "ring_inv (read_state (consoleread_loop killed target
         (dst @ [input_buf s ! (unat (input_r s) mod INPUT_BUF)]) (n - 1) ?s1))"
      by (intro "1.IH") auto
    with True show ?thesis
      by (subst consoleread_loop.simps) (auto simp: Let_def)
  next
    case False
    then show ?thesis
      using "1.prems" step
      by (subst consoleread_loop.simps) (auto simp: Let_def undo)
  qed
qed

subsection \<open>Navigation steps\<close>

lemma history_up_moves:
  assumes "nav_inv s" and "command_ptr s + 1 < saved s"
  shows "command_ptr (state_of (moveThroughCommandHistory (S KEY_UP) s)) = command_ptr s + 1"
proof -
  let ?x = "writeCommand (s\<lparr>command_ptr := command_ptr s + 1\<rparr>)"
  have k: "keeps (s\<lparr>command_ptr := command_ptr s + 1\<rparr>) (state_of ?x)"
    by (rule writeCommand_keeps [OF keeps_refl])
  show ?thesis
  proof (cases "command_ptr s = - 1")
    case True
    with k assms show ?thesis
      by (simp add: moveThroughCommandHistory_def keeps_def)
  next
    case False
    with k assms show ?thesis
      by (cases ?x) (auto simp: moveThroughCommandHistory_def keeps_def nav_inv_def)
  qed
qed

lemma history_up_top:
  "\<not> command_ptr s + 1 < saved s \<Longrightarrow> moveThroughCommandHistory (S KEY_UP) s = Ret s"
  by (auto simp: moveThroughCommandHistory_def)

lemma history_down_moves:
  assumes "0 < command_ptr s"
  shows "command_ptr (state_of (moveThroughCommandHistory (S KEY_DN) s)) = command_ptr s - 1"
proof -
  have "keeps (s\<lparr>command_ptr := command_ptr s - 1\<rparr>)
      (state_of (writeCommand (s\<lparr>command_ptr := command_ptr s - 1\<rparr>)))"
    by (rule writeCommand_keeps [OF keeps_refl])
  with assms show ?thesis
    by (simp add: moveThroughCommandHistory_def keeps_def)
qed

lemma history_down_leaves:
  assumes "command_ptr s = 0" and "panicked s = 0" and "10 \<notin> set (edit_line s)"
  shows "\<exists>t. moveThroughCommandHistory (S KEY_DN) s = Ret t \<and> command_ptr t = - 1 \<and>
    edit_line t = [] \<and> input_w t = input_w s \<and> saved t = saved s"
proof -
  from clearCommandLine_erases [OF assms(2,3)] obtain t where
    t: "clearCommandLine s = Ret t" "input_e t = input_w s" "input_w t = input_w s"
    "saved t = saved s"
    by blast
  then have "edit_line (t\<lparr>command_ptr := - 1\<rparr>) = []"
    by (simp add: edit_line_def)
  with t assms(1) show ?thesis
    by (simp add: moveThroughCommandHistory_def)
qed

lemma history_down_idle:
  "command_ptr s = - 1 \<Longrightarrow> moveThroughCommandHistory (S KEY_DN) s = Ret s"
  by (simp add: moveThroughCommandHistory_def)

lemma handleKey_arrows:
  "handleKey (S KEY_UP) s = moveThroughCommandHistory (S KEY_UP) s"
  "handleKey (S KEY_DN) s = moveThroughCommandHistory (S KEY_DN) s"
  by (simp_all add: handleKey_def)

text \<open>
  C8. In a state where \<^verbatim>\<open>command_ptr\<close> is \<open>-1\<close> or an index below \<^verbatim>\<open>saved\<close>, and
  \<^verbatim>\<open>saved\<close> is between 0 and 3, the same holds after every key and after every sequence
  of calls into the file, and \<^verbatim>\<open>saved\<close> never exceeds 3; the statics at boot are such a
  state, so it holds in every state the console reaches. The arrow keys are handled by
  \<^verbatim>\<open>moveThroughCommandHistory\<close>: history-up moves the cursor from \<open>k\<close> to \<open>k + 1\<close> when
  \<open>k + 1 < saved\<close> (from \<open>-1\<close> to 0 when a line is saved) and is a no-op otherwise;
  history-down moves it from \<open>k > 0\<close> to \<open>k - 1\<close>, from 0 it erases the edit line and sets
  the cursor to \<open>-1\<close> (when the output path is not halted and the edit line holds no
  newline byte, at which the erase loop would stop), and at \<open>-1\<close> it is a no-op. The edit
  line holds no newline byte in any state the console reaches from boot through plain
  key codes, while the output path is not halted.
\<close>

theorem navigator_cursor_domain:
  assumes "nav_inv s"
  shows "nav_inv (state_of (handleKey c s)) \<and> nav_inv (execs calls s) \<and>
    nav_inv (execs calls boot_console) \<and>
    handleKey (S KEY_UP) s = moveThroughCommandHistory (S KEY_UP) s \<and>
    handleKey (S KEY_DN) s = moveThroughCommandHistory (S KEY_DN) s \<and>
    (command_ptr s + 1 < saved s \<longrightarrow>
       command_ptr (state_of (moveThroughCommandHistory (S KEY_UP) s)) = command_ptr s + 1) \<and>
    (\<not> command_ptr s + 1 < saved s \<longrightarrow> moveThroughCommandHistory (S KEY_UP) s = Ret s) \<and>
    (0 < command_ptr s \<longrightarrow>
       command_ptr (state_of (moveThroughCommandHistory (S KEY_DN) s)) = command_ptr s - 1) \<and>
    (command_ptr s = 0 \<and> panicked s = 0 \<and> 10 \<notin> set (edit_line s) \<longrightarrow>
       returns (moveThroughCommandHistory (S KEY_DN) s) \<and>
       command_ptr (state_of (moveThroughCommandHistory (S KEY_DN) s)) = - 1 \<and>
       edit_line (state_of (moveThroughCommandHistory (S KEY_DN) s)) = []) \<and>
    (command_ptr s = - 1 \<longrightarrow> moveThroughCommandHistory (S KEY_DN) s = Ret s) \<and>
    saved (execs calls s) \<le> SAVED_MAX \<and>
    (list_all plain_call calls \<and> panicked (execs calls boot_console) = 0 \<longrightarrow>
       10 \<notin> set (edit_line (execs calls boot_console)))"
proof -
  have "10 \<notin> set (edit_line (execs calls boot_console))"
    if "list_all plain_call calls \<and> panicked (execs calls boot_console) = 0"
    using that execs_tidy [OF tidy_boot, of calls] by (simp add: tidy_def)
  moreover have "nav_inv boot_console"
    by (simp add: nav_inv_def boot_console_def)
  then have "nav_inv (execs calls boot_console)"
    using execs_steps [of boot_console calls] by (simp add: steps_def)
  moreover have "nav_inv (state_of (handleKey c s))"
    using handleKey_steps [of s c] assms by (simp add: steps_def)
  moreover have inv: "nav_inv (execs calls s)"
    using execs_steps [of s calls] assms by (simp add: steps_def)
  moreover from inv have "saved (execs calls s) \<le> SAVED_MAX"
    by (simp add: nav_inv_def)
  moreover have "returns (moveThroughCommandHistory (S KEY_DN) s) \<and>
       command_ptr (state_of (moveThroughCommandHistory (S KEY_DN) s)) = - 1 \<and>
       edit_line (state_of (moveThroughCommandHistory (S KEY_DN) s)) = []"
    if "command_ptr s = 0 \<and> panicked s = 0 \<and> 10 \<notin> set (edit_line s)"
    using history_down_leaves [of s] that by auto
  ultimately show ?thesis
    using history_up_moves [OF assms] history_up_top [of s] history_down_moves [of s]
      history_down_idle [of s] handleKey_arrows [of s]
    by blast
qed

theorem navigator_cursor_domain_witness:
  "nav_inv typed_a \<and> command_ptr typed_a = - 1 \<and> saved typed_a = 1 \<and>
   command_ptr (state_of (moveThroughCommandHistory (S KEY_UP) typed_a)) = 0 \<and>
   moveThroughCommandHistory (S KEY_DN) typed_a = Ret typed_a \<and>
   nav_inv (execs [Intr [0x63, NEWLINE, S KEY_UP], Read False 5] typed_a) \<and>
   nav_inv recalled_a \<and> command_ptr recalled_a = 0 \<and> saved recalled_a = 1 \<and>
   moveThroughCommandHistory (S KEY_UP) recalled_a = Ret recalled_a \<and>
   returns (moveThroughCommandHistory (S KEY_DN) recalled_a) \<and>
   command_ptr (state_of (moveThroughCommandHistory (S KEY_DN) recalled_a)) = - 1 \<and>
   edit_line (state_of (moveThroughCommandHistory (S KEY_DN) recalled_a)) = [] \<and>
   nav_inv browsing_two \<and> command_ptr browsing_two = 1 \<and> saved browsing_two = 2 \<and>
   command_ptr (state_of (moveThroughCommandHistory (S KEY_DN) browsing_two)) = 0 \<and>
   list_all plain_call [Init, Intr [0x61, NEWLINE], Intr [S KEY_UP]] \<and>
   execs [Init, Intr [0x61, NEWLINE], Intr [S KEY_UP]] boot_console = recalled_a \<and>
   panicked recalled_a = 0 \<and> 10 \<notin> set (edit_line recalled_a)"
proof -
  have reach: "execs [Init, Intr [0x61, NEWLINE], Intr [S KEY_UP]] boot_console = recalled_a"
    by (simp only: execs.simps exec.simps recalled_a_def typed_a_def init_console_def)
  have keys: "list_all plain_call [Init, Intr [0x61, NEWLINE], Intr [S KEY_UP]]"
    by (simp add: plain_def)
  note c = navigator_cursor_domain [OF typed_a_nav(1),
      of 0 "[Init, Intr [0x61, NEWLINE], Intr [S KEY_UP]]"]
  from c keys have "10 \<notin> set (edit_line recalled_a)"
    by (simp add: reach recalled_a_nav)
  note reached = this reach keys
  note a = navigator_cursor_domain [OF typed_a_nav(1),
      of 0 "[Intr [0x63, NEWLINE, S KEY_UP], Read False 5]"]
  note r = navigator_cursor_domain [OF recalled_a_nav(1), of 0 "[]"]
  note b = navigator_cursor_domain [OF browsing_two_nav(1), of 0 "[]"]
  from a have "command_ptr (state_of (moveThroughCommandHistory (S KEY_UP) typed_a)) = 0"
    "moveThroughCommandHistory (S KEY_DN) typed_a = Ret typed_a"
    "nav_inv (execs [Intr [0x63, NEWLINE, S KEY_UP], Read False 5] typed_a)"
    by (simp_all add: typed_a_nav)
  moreover from r have "moveThroughCommandHistory (S KEY_UP) recalled_a = Ret recalled_a"
    "returns (moveThroughCommandHistory (S KEY_DN) recalled_a)"
    "command_ptr (state_of (moveThroughCommandHistory (S KEY_DN) recalled_a)) = - 1"
    "edit_line (state_of (moveThroughCommandHistory (S KEY_DN) recalled_a)) = []"
    by (simp_all add: recalled_a_nav)
  moreover from b have
    "command_ptr (state_of (moveThroughCommandHistory (S KEY_DN) browsing_two)) = 0"
    by (simp add: browsing_two_nav)
  ultimately show ?thesis
    using typed_a_nav recalled_a_nav browsing_two_nav reached by blast
qed

subsection \<open>The halt latch\<close>

text \<open>
  C9. The flag \<^verbatim>\<open>panicked\<close> is a latch. Once it is set, \<^verbatim>\<open>consputc\<close> clears the
  interrupt flag and spins, sending nothing to the UART or the screen; and whatever calls
  are made into the file afterwards (interrupts, reads, writes, \<^verbatim>\<open>cprintf\<close>,
  \<^verbatim>\<open>panic\<close>), the flag keeps its value and the UART and the screen receive nothing. A
  clear flag stays clear or becomes 1. \<^verbatim>\<open>panic\<close> never returns, and from a clear flag it
  leaves the flag at 1.
\<close>

theorem halt_latch:
  "(panicked s \<noteq> 0 \<longrightarrow>
      consputc c s = Spin (cli s) \<and> \<not> intena (cli s) \<and>
      uart (cli s) = uart s \<and> cga (cli s) = cga s \<and>
      panicked (execs calls s) = panicked s \<and>
      uart (execs calls s) = uart s \<and> cga (execs calls s) = cga s) \<and>
   (panicked s = 0 \<longrightarrow> panicked (execs calls s) = 0 \<or> panicked (execs calls s) = 1) \<and>
   \<not> returns (panic cp msg s) \<and>
   (panicked s = 0 \<longrightarrow> panicked (state_of (panic cp msg s)) = 1)"
proof -
  have "frozen s (execs calls s)"
    using execs_steps [of s calls] by (simp add: steps_def)
  then show ?thesis
    using panic_spins [of cp msg s] panic_sets_flag [of s cp msg]
    by (auto simp: frozen_def consputc_panicked cli_def split: if_splits)
qed

theorem halt_latch_witness:
  "panicked init_console = 0 \<and> panicked halted = 1 \<and>
   \<not> returns (panic cpu0 (Some (cstr ''boom'')) init_console) \<and>
   consputc 0x41 halted = Spin (cli halted) \<and> \<not> intena (cli halted) \<and>
   uart (cli halted) = uart halted \<and> cga (cli halted) = cga halted \<and>
   panicked (execs [Intr [0x61, NEWLINE], Write [0x62], Panic cpu0 None] halted) = 1 \<and>
   uart (execs [Intr [0x61, NEWLINE], Write [0x62], Panic cpu0 None] halted) = uart halted \<and>
   cga (execs [Intr [0x61, NEWLINE], Write [0x62], Panic cpu0 None] halted) = cga halted"
proof -
  have calm: "panicked init_console = 0"
    by (simp add: init_console_def consoleinit_def boot_console_def)
  from halt_latch [where s = init_console and cp = cpu0 and msg = "Some (cstr ''boom'')"] calm
  have set: "panicked halted = 1" and spin: "\<not> returns (panic cpu0 (Some (cstr ''boom'')) init_console)"
    by (simp_all add: halted_def)
  from halt_latch [where s = halted and c = "0x41" and
      calls = "[Intr [0x61, NEWLINE], Write [0x62], Panic cpu0 None]"]
    set calm spin
  show ?thesis
    by simp
qed

end
